theory Spec2Isabelle
  imports Main "HOL-Library.Word"
begin

section \<open>JavaScript strings\<close>

text \<open>
  The transform (svgTransform.ts) is a chain of string-to-string functions.  A JavaScript
  string is a sequence of UTF-16 code units: \<open>length\<close>, \<open>indexOf\<close>, \<open>slice\<close>, indexing and
  the regular expressions of the source (none has the \<open>u\<close> flag) all count code units.
  A string is therefore a list of 16-bit words.  \<open>js\<close> turns an Isabelle literal into
  such a string, \<open>ch\<close> a single character.
\<close>

type_synonym jschar = "16 word"
type_synonym jsstring = "jschar list"
type_synonym byte = "8 word"

definition ch :: "char \<Rightarrow> jschar" where
  "ch c = of_char c"

definition js :: "string \<Rightarrow> jsstring" where
  "js s = map ch s"

definition DQUOTE :: jschar where "DQUOTE = 0x22"
definition SQUOTE :: jschar where "SQUOTE = 0x27"
definition BACKTICK :: jschar where "BACKTICK = 0x60"
definition BACKSLASH :: jschar where "BACKSLASH = 0x5C"

subsection \<open>Character classes of the regular expressions\<close>

text \<open>\<open>\w\<close> is \<open>[A-Za-z0-9_]\<close>, \<open>\d\<close> is \<open>[0-9]\<close>.\<close>

definition isUpper :: "jschar \<Rightarrow> bool" where
  "isUpper c = (0x41 \<le> c \<and> c \<le> 0x5A)"

definition isLower :: "jschar \<Rightarrow> bool" where
  "isLower c = (0x61 \<le> c \<and> c \<le> 0x7A)"

definition isDigit :: "jschar \<Rightarrow> bool" where
  "isDigit c = (0x30 \<le> c \<and> c \<le> 0x39)"

definition isAlnum :: "jschar \<Rightarrow> bool" where
  "isAlnum c = (isLower c \<or> isUpper c \<or> isDigit c)"

definition isWordChar :: "jschar \<Rightarrow> bool" where
  "isWordChar c = (isAlnum c \<or> c = 0x5F)"

text \<open>
  Line terminators (excluded by \<open>.\<close>, delimiting lines for \<open>^\<close> and \<open>$\<close> under the \<open>m\<close>
  flag): LF, CR, U+2028, U+2029.
\<close>

definition isLineTerminator :: "jschar \<Rightarrow> bool" where
  "isLineTerminator c = (c = 0x0A \<or> c = 0x0D \<or> c = 0x2028 \<or> c = 0x2029)"

text \<open>
  \<open>\s\<close> (and the characters removed by \<open>trim\<close>): the white space characters TAB, VT, FF,
  SP, NBSP, U+FEFF and the space separators U+1680, U+2000..U+200A, U+202F, U+205F,
  U+3000, together with the line terminators.
\<close>

definition isSpace :: "jschar \<Rightarrow> bool" where
  "isSpace c = (c = 0x09 \<or> c = 0x0B \<or> c = 0x0C \<or> c = 0x20 \<or> c = 0xA0 \<or> c = 0xFEFF
     \<or> c = 0x1680 \<or> (0x2000 \<le> c \<and> c \<le> 0x200A) \<or> c = 0x202F \<or> c = 0x205F \<or> c = 0x3000
     \<or> isLineTerminator c)"

subsection \<open>String methods\<close>

text \<open>\<open>s.startsWith(p)\<close>.\<close>

fun startsWith :: "jsstring \<Rightarrow> jsstring \<Rightarrow> bool" where
  "startsWith s [] = True"
| "startsWith [] (p # ps) = False"
| "startsWith (c # cs) (p # ps) = (if c = p then startsWith cs ps else False)"

text \<open>What follows the prefix \<open>p\<close> of \<open>s\<close>, when \<open>s\<close> starts with \<open>p\<close>.\<close>

fun stripPrefix :: "jsstring \<Rightarrow> jsstring \<Rightarrow> jsstring option" where
  "stripPrefix [] s = Some s"
| "stripPrefix (p # ps) [] = None"
| "stripPrefix (p # ps) (c # cs) = (if c = p then stripPrefix ps cs else None)"

text \<open>
  The text before and the text after the first occurrence of \<open>p\<close> in \<open>s\<close>: what a lazy
  \<open>[\s\S]*?\<close> followed by the literal \<open>p\<close> matches, and what is left.
\<close>

fun splitAtFirst :: "jsstring \<Rightarrow> jsstring \<Rightarrow> (jsstring \<times> jsstring) option" where
  "splitAtFirst p [] = (if p = [] then Some ([], []) else None)"
| "splitAtFirst p (c # cs) =
     (case stripPrefix p (c # cs) of
        Some r \<Rightarrow> Some ([], r)
      | None \<Rightarrow> map_option (\<lambda>(before, after). (c # before, after)) (splitAtFirst p cs))"

text \<open>\<open>s.endsWith(p)\<close>.\<close>

definition endsWith :: "jsstring \<Rightarrow> jsstring \<Rightarrow> bool" where
  "endsWith s p = startsWith (rev s) (rev p)"

text \<open>The offset of the first occurrence of \<open>p\<close> in \<open>s\<close>, if there is one.\<close>

fun find_sub :: "jsstring \<Rightarrow> jsstring \<Rightarrow> nat option" where
  "find_sub p [] = (if p = [] then Some 0 else None)"
| "find_sub p (c # cs) =
     (if startsWith (c # cs) p then Some 0 else map_option Suc (find_sub p cs))"

text \<open>
  \<open>s.indexOf(p, from)\<close> for a non-empty \<open>p\<close>; \<open>None\<close> is the source's \<open>-1\<close>.
\<close>

definition indexOf :: "jsstring \<Rightarrow> jsstring \<Rightarrow> nat \<Rightarrow> nat option" where
  "indexOf s p from = map_option (\<lambda>k. from + k) (find_sub p (drop from s))"

text \<open>\<open>s.includes(p)\<close>.\<close>

definition includes_str :: "jsstring \<Rightarrow> jsstring \<Rightarrow> bool" where
  "includes_str s p = (find_sub p s \<noteq> None)"

text \<open>
  \<open>s.lastIndexOf(c, from)\<close> for a one-character search string: the greatest index
  \<open>i \<le> from\<close> with \<open>s[i] = c\<close>.
\<close>

fun last_index :: "jschar \<Rightarrow> jsstring \<Rightarrow> nat \<Rightarrow> nat option \<Rightarrow> nat option" where
  "last_index c [] i acc = acc"
| "last_index c (x # xs) i acc = last_index c xs (Suc i) (if x = c then Some i else acc)"

definition lastIndexOf :: "jsstring \<Rightarrow> jschar \<Rightarrow> nat \<Rightarrow> nat option" where
  "lastIndexOf s c from = last_index c (take (Suc from) s) 0 None"

text \<open>\<open>s.slice(a, b)\<close> for indices \<open>a, b \<ge> 0\<close> (empty when \<open>b \<le> a\<close>).\<close>

definition slice :: "jsstring \<Rightarrow> nat \<Rightarrow> nat \<Rightarrow> jsstring" where
  "slice s a b = take (b - a) (drop a s)"

text \<open>\<open>s.trim()\<close>.\<close>

definition trim :: "jsstring \<Rightarrow> jsstring" where
  "trim s = rev (dropWhile isSpace (rev (dropWhile isSpace s)))"

section \<open>The platform's Buffer: UTF-8 and base64\<close>

text \<open>
  \<open>Buffer.from(content)\<close> encodes a string as UTF-8.  A surrogate pair becomes one
  four-byte sequence; a surrogate without its partner becomes the three bytes of U+FFFD.
\<close>

definition isHighSurrogate :: "jschar \<Rightarrow> bool" where
  "isHighSurrogate c = (0xD800 \<le> c \<and> c \<le> 0xDBFF)"

definition isLowSurrogate :: "jschar \<Rightarrow> bool" where
  "isLowSurrogate c = (0xDC00 \<le> c \<and> c \<le> 0xDFFF)"

definition utf8_of_code_point :: "int \<Rightarrow> byte list" where
  "utf8_of_code_point u =
     (if u < 0x80 then [word_of_int u]
      else if u < 0x800 then [word_of_int (0xC0 + u div 64), word_of_int (0x80 + u mod 64)]
      else if u < 0x10000 then
        [word_of_int (0xE0 + u div 4096), word_of_int (0x80 + (u div 64) mod 64),
         word_of_int (0x80 + u mod 64)]
      else
        [word_of_int (0xF0 + u div 262144), word_of_int (0x80 + (u div 4096) mod 64),
         word_of_int (0x80 + (u div 64) mod 64), word_of_int (0x80 + u mod 64)])"

fun utf8_encode :: "jsstring \<Rightarrow> byte list" where
  "utf8_encode [] = []"
| "utf8_encode [c] =
     (if isHighSurrogate c \<or> isLowSurrogate c then utf8_of_code_point 0xFFFD
      else utf8_of_code_point (uint c))"
| "utf8_encode (c # d # ds) =
     (if isHighSurrogate c then
        (if isLowSurrogate d then
           utf8_of_code_point (0x10000 + (uint c - 0xD800) * 1024 + (uint d - 0xDC00))
             @ utf8_encode ds
         else utf8_of_code_point 0xFFFD @ utf8_encode (d # ds))
      else if isLowSurrogate c then utf8_of_code_point 0xFFFD @ utf8_encode (d # ds)
      else utf8_of_code_point (uint c) @ utf8_encode (d # ds))"

text \<open>
  \<open>buffer.toString('utf-8')\<close>: the UTF-8 decoder.  An ill-formed sequence gives U+FFFD
  for its longest well-formed start, and decoding goes on at the byte that broke it.
  A code point above U+FFFF becomes a surrogate pair.
\<close>

definition isCont :: "int \<Rightarrow> int \<Rightarrow> byte \<Rightarrow> bool" where
  "isCont lo hi b = (lo \<le> uint b \<and> uint b \<le> hi)"

definition code_units :: "int \<Rightarrow> jsstring" where
  "code_units u =
     (if u < 0x10000 then [word_of_int u]
      else [word_of_int (0xD800 + (u - 0x10000) div 1024),
            word_of_int (0xDC00 + (u - 0x10000) mod 1024)])"

fun utf8_decode :: "byte list \<Rightarrow> jsstring" where
  "utf8_decode [] = []"
| "utf8_decode (b # bs) =
     (let x = uint b in
      if x < 0x80 then word_of_int x # utf8_decode bs
      else if 0xC2 \<le> x \<and> x \<le> 0xDF then
        (case bs of
           [] \<Rightarrow> [0xFFFD]
         | b1 # r1 \<Rightarrow>
             if isCont 0x80 0xBF b1
             then word_of_int ((x - 0xC0) * 64 + (uint b1 - 0x80)) # utf8_decode r1
             else 0xFFFD # utf8_decode (b1 # r1))
      else if 0xE0 \<le> x \<and> x \<le> 0xEF then
        (case bs of
           [] \<Rightarrow> [0xFFFD]
         | b1 # r1 \<Rightarrow>
             if isCont (if x = 0xE0 then 0xA0 else 0x80) (if x = 0xED then 0x9F else 0xBF) b1
             then
               (case r1 of
                  [] \<Rightarrow> [0xFFFD]
                | b2 # r2 \<Rightarrow>
                    if isCont 0x80 0xBF b2
                    then word_of_int ((x - 0xE0) * 4096 + (uint b1 - 0x80) * 64 + (uint b2 - 0x80))
                           # utf8_decode r2
                    else 0xFFFD # utf8_decode (b2 # r2))
             else 0xFFFD # utf8_decode (b1 # r1))
      else if 0xF0 \<le> x \<and> x \<le> 0xF4 then
        (case bs of
           [] \<Rightarrow> [0xFFFD]
         | b1 # r1 \<Rightarrow>
             if isCont (if x = 0xF0 then 0x90 else 0x80) (if x = 0xF4 then 0x8F else 0xBF) b1
             then
               (case r1 of
                  [] \<Rightarrow> [0xFFFD]
                | b2 # r2 \<Rightarrow>
                    if isCont 0x80 0xBF b2
                    then
                      (case r2 of
                         [] \<Rightarrow> [0xFFFD]
                       | b3 # r3 \<Rightarrow>
                           if isCont 0x80 0xBF b3
                           then code_units ((x - 0xF0) * 262144 + (uint b1 - 0x80) * 4096
                                  + (uint b2 - 0x80) * 64 + (uint b3 - 0x80)) @ utf8_decode r3
                           else 0xFFFD # utf8_decode (b3 # r3))
                    else 0xFFFD # utf8_decode (b2 # r2))
             else 0xFFFD # utf8_decode (b1 # r1))
      else 0xFFFD # utf8_decode bs)"

text \<open>
  \<open>buffer.toString('base64')\<close>: RFC 4648 base64 with padding.
\<close>

definition b64_digit :: "int \<Rightarrow> jschar" where
  "b64_digit n =
     (if n < 26 then word_of_int (0x41 + n)
      else if n < 52 then word_of_int (0x61 + (n - 26))
      else if n < 62 then word_of_int (0x30 + (n - 52))
      else if n = 62 then 0x2B
      else 0x2F)"

fun base64_encode :: "byte list \<Rightarrow> jsstring" where
  "base64_encode [] = []"
| "base64_encode [a] =
     [b64_digit (uint a div 4), b64_digit ((uint a mod 4) * 16), 0x3D, 0x3D]"
| "base64_encode [a, b] =
     [b64_digit (uint a div 4), b64_digit ((uint a mod 4) * 16 + uint b div 16),
      b64_digit ((uint b mod 16) * 4), 0x3D]"
| "base64_encode (a # b # c # bs) =
     [b64_digit (uint a div 4), b64_digit ((uint a mod 4) * 16 + uint b div 16),
      b64_digit ((uint b mod 16) * 4 + uint c div 64), b64_digit (uint c mod 64)]
     @ base64_encode bs"

text \<open>
  \<open>Buffer.from(b64, 'base64')\<close>: the decoder reads the low byte of every code unit.  It
  also accepts the URL-safe digits \<open>-\<close> and \<open>_\<close>, skips every character that is not a
  base64 digit, and stops at the first \<open>=\<close>.  A trailing group of two or three digits
  gives one or two bytes.
\<close>

definition b64_byte_value :: "int \<Rightarrow> int option" where
  "b64_byte_value x =
     (if 0x41 \<le> x \<and> x \<le> 0x5A then Some (x - 0x41)
      else if 0x61 \<le> x \<and> x \<le> 0x7A then Some (x - 0x61 + 26)
      else if 0x30 \<le> x \<and> x \<le> 0x39 then Some (x - 0x30 + 52)
      else if x = 0x2B \<or> x = 0x2D then Some 62
      else if x = 0x2F \<or> x = 0x5F then Some 63
      else None)"

definition b64_value :: "jschar \<Rightarrow> int option" where
  "b64_value c = b64_byte_value (uint c mod 256)"

fun b64_bytes :: "int list \<Rightarrow> byte list" where
  "b64_bytes (a # b # c # d # r) =
     [word_of_int (a * 4 + b div 16), word_of_int ((b mod 16) * 16 + c div 4),
      word_of_int ((c mod 4) * 64 + d)]
     @ b64_bytes r"
| "b64_bytes [a, b, c] =
     [word_of_int (a * 4 + b div 16), word_of_int ((b mod 16) * 16 + c div 4)]"
| "b64_bytes [a, b] = [word_of_int (a * 4 + b div 16)]"
| "b64_bytes [a] = []"
| "b64_bytes [] = []"

definition base64_decode :: "jsstring \<Rightarrow> byte list" where
  "base64_decode s = b64_bytes (List.map_filter b64_value (takeWhile (\<lambda>c. c \<noteq> 0x3D) s))"

section \<open>Placeholders: encodeJsx and decodeJsx\<close>

definition BASE64_PREFIX :: jsstring where
  "BASE64_PREFIX = js ''__JSX_BASE64__''"

definition BASE64_SUFFIX :: jsstring where
  "BASE64_SUFFIX = js ''__''"

definition encodeJsx :: "jsstring \<Rightarrow> jsstring" where
  "encodeJsx content = BASE64_PREFIX @ base64_encode (utf8_encode content) @ BASE64_SUFFIX"

text \<open>\<open>decodeJsx\<close> returns \<open>string | null\<close>; \<open>None\<close> is \<open>null\<close>.\<close>

definition decodeJsx :: "jsstring \<Rightarrow> jsstring option" where
  "decodeJsx content =
     (if startsWith content BASE64_PREFIX \<and> endsWith content BASE64_SUFFIX then
        let b64 = slice content (length BASE64_PREFIX) (length content - length BASE64_SUFFIX)
        in Some (utf8_decode (base64_decode b64))
      else None)"

section \<open>Regular expressions\<close>

text \<open>
  Every regular expression of the source is written out as a matcher: a function that is
  given the code unit before the current position (\<open>None\<close> at the start of the input, for
  \<open>\b\<close>, \<open>^\<close> and the callbacks' \<open>content[offset - 1]\<close>) and the input from the current
  position on, and that returns the matched text, the input after the match and the
  capture groups.  The search for the leftmost match, \<open>test\<close>, \<open>match\<close> and \<open>replace\<close>
  with the \<open>g\<close> flag are the same for all of them.
\<close>

type_synonym 'c matcher = "jschar option \<Rightarrow> jsstring \<Rightarrow> (jsstring \<times> jsstring \<times> 'c) option"

text \<open>\<open>regex.test(s)\<close>: is there a position where the expression matches?\<close>

fun regex_test :: "'c matcher \<Rightarrow> jschar option \<Rightarrow> jsstring \<Rightarrow> bool" where
  "regex_test m prev [] = (case m prev [] of None \<Rightarrow> False | Some r \<Rightarrow> True)"
| "regex_test m prev (x # xs) =
     (case m prev (x # xs) of None \<Rightarrow> regex_test m (Some x) xs | Some r \<Rightarrow> True)"

text \<open>
  \<open>s.replace(regex, callback)\<close> with the \<open>g\<close> flag: matches are taken leftmost first and
  do not overlap; the callback gets the matched text, the captures and the code unit
  before the match.  After an empty match the search moves on by one code unit.
\<close>

fun shorter :: "'a list \<Rightarrow> 'a list \<Rightarrow> bool" where
  "shorter xs [] = False"
| "shorter [] (y # ys) = True"
| "shorter (x # xs) (y # ys) = shorter xs ys"

function regex_replace ::
  "'c matcher \<Rightarrow> (jsstring \<Rightarrow> 'c \<Rightarrow> jschar option \<Rightarrow> jsstring) \<Rightarrow> jschar option \<Rightarrow> jsstring
     \<Rightarrow> jsstring" where
  "regex_replace m f prev [] =
     (case m prev [] of None \<Rightarrow> [] | Some (matched, rest, c) \<Rightarrow> f matched c prev)"
| "regex_replace m f prev (x # xs) =
     (case m prev (x # xs) of
        None \<Rightarrow> x # regex_replace m f (Some x) xs
      | Some (matched, rest, c) \<Rightarrow>
          if shorter rest (x # xs)
          then f matched c prev @ regex_replace m f (Some (last matched)) rest
          else f matched c prev @ x # regex_replace m f (Some x) xs)"
  by pat_completeness auto


lemma shorter_length: "shorter xs ys = (length xs < length ys)"
  by (induction xs ys rule: shorter.induct) auto

termination regex_replace
  by (relation "measure (\<lambda>(m, f, prev, s). length s)") (auto simp: shorter_length)

text \<open>\<open>s.match(regex)\<close> with the \<open>g\<close> flag: the matched texts, in order.\<close>

function regex_match_all :: "'c matcher \<Rightarrow> jschar option \<Rightarrow> jsstring \<Rightarrow> jsstring list" where
  "regex_match_all m prev [] =
     (case m prev [] of None \<Rightarrow> [] | Some (matched, rest, c) \<Rightarrow> [matched])"
| "regex_match_all m prev (x # xs) =
     (case m prev (x # xs) of
        None \<Rightarrow> regex_match_all m (Some x) xs
      | Some (matched, rest, c) \<Rightarrow>
          if shorter rest (x # xs)
          then matched # regex_match_all m (Some (last matched)) rest
          else matched # regex_match_all m (Some x) xs)"
  by pat_completeness auto
termination
  by (relation "measure (\<lambda>(m, prev, s). length s)") (auto simp: shorter_length)

text \<open>\<open>\b\<close>: exactly one of the code units around the position is a word character.\<close>

definition wordBefore :: "jschar option \<Rightarrow> bool" where
  "wordBefore prev = (case prev of None \<Rightarrow> False | Some c \<Rightarrow> isWordChar c)"

definition wordAfter :: "jsstring \<Rightarrow> bool" where
  "wordAfter rest = (case rest of [] \<Rightarrow> False | c # cs \<Rightarrow> isWordChar c)"

definition wordBoundary :: "jschar option \<Rightarrow> jsstring \<Rightarrow> bool" where
  "wordBoundary prev rest = (wordBefore prev \<noteq> wordAfter rest)"

text \<open>\<open>^\<close> under the \<open>m\<close> flag: the start of the input or of a line.\<close>

definition lineStart :: "jschar option \<Rightarrow> bool" where
  "lineStart prev = (case prev of None \<Rightarrow> True | Some c \<Rightarrow> isLineTerminator c)"

text \<open>
  \<open>\bLITERAL\<close>, used for \<open>/\bclassName=/\<close>, \<open>/\bclass=/\<close> and the expressions built from
  the attribute map, \<open>new RegExp(`\\b${jsxAttr}=`, 'g')\<close>.  (In \<open>convertSvgToJsx\<close> the
  hyphens and colons of the name are escaped first, which leaves them literal.)
\<close>

definition m_boundary_literal :: "jsstring \<Rightarrow> unit matcher" where
  "m_boundary_literal lit prev rest =
     (case stripPrefix lit rest of
        None \<Rightarrow> None
      | Some r \<Rightarrow> if wordBoundary prev rest then Some (lit, r, ()) else None)"

text \<open>A plain literal, for \<open>/__COLON__/g\<close>, \<open>/&quot;/g\<close> and the like.\<close>

definition m_literal :: "jsstring \<Rightarrow> unit matcher" where
  "m_literal lit prev rest =
     (case stripPrefix lit rest of None \<Rightarrow> None | Some r \<Rightarrow> Some (lit, r, ()))"

definition constant_text :: "jsstring \<Rightarrow> jsstring \<Rightarrow> unit \<Rightarrow> jschar option \<Rightarrow> jsstring" where
  "constant_text r matched c prev = r"

definition replace_literal :: "jsstring \<Rightarrow> jsstring \<Rightarrow> jsstring \<Rightarrow> jsstring" where
  "replace_literal lit r s = regex_replace (m_literal lit) (constant_text r) None s"

text \<open>\<open>/=\{[^}]+\}/\<close>\<close>

definition m_expression_value :: "unit matcher" where
  "m_expression_value prev rest =
     (case stripPrefix (js ''={'') rest of
        None \<Rightarrow> None
      | Some r \<Rightarrow>
          (case r of
             [] \<Rightarrow> None
           | c # cs \<Rightarrow>
               if c = ch CHR ''}'' then None
               else (case splitAtFirst (js ''}'') cs of
                       None \<Rightarrow> None
                     | Some (before, after) \<Rightarrow>
                         Some (js ''={'' @ c # before @ js ''}'', after, ()))))"

text \<open>\<open>/\{\.\.\.[^}]+\}/\<close>\<close>

definition m_spread :: "unit matcher" where
  "m_spread prev rest =
     (case stripPrefix (js ''{...'') rest of
        None \<Rightarrow> None
      | Some r \<Rightarrow>
          (case r of
             [] \<Rightarrow> None
           | c # cs \<Rightarrow>
               if c = ch CHR ''}'' then None
               else (case splitAtFirst (js ''}'') cs of
                       None \<Rightarrow> None
                     | Some (before, after) \<Rightarrow>
                         Some (js ''{...'' @ c # before @ js ''}'', after, ()))))"

text \<open>
  \<open>/(?:\s|^)(v-|client:|on:|bind:|class:|use:|let:|animate:|transition:|[:@])[a-zA-Z0-9-.:]+/\<close>
  (no \<open>m\<close> flag: \<open>^\<close> is the start of the input).
\<close>

definition detector_prefixes :: "jsstring list" where
  "detector_prefixes = map js [''v-'', ''client:'', ''on:'', ''bind:'', ''class:'', ''use:'',
     ''let:'', ''animate:'', ''transition:'', '':'', ''@'']"

definition isDirectiveNameChar :: "jschar \<Rightarrow> bool" where
  "isDirectiveNameChar c = (isAlnum c \<or> c = ch CHR ''-'' \<or> c = ch CHR ''.'' \<or> c = ch CHR '':'')"

fun directive_body :: "jsstring list \<Rightarrow> jsstring \<Rightarrow> (jsstring \<times> jsstring) option" where
  "directive_body [] rest = None"
| "directive_body (p # ps) rest =
     (case stripPrefix p rest of
        None \<Rightarrow> directive_body ps rest
      | Some r \<Rightarrow>
          (case takeWhile isDirectiveNameChar r of
             [] \<Rightarrow> directive_body ps rest
           | c # cs \<Rightarrow> Some (p @ c # cs, dropWhile isDirectiveNameChar r)))"

definition m_directive :: "unit matcher" where
  "m_directive prev rest =
     (case (case rest of
              [] \<Rightarrow> None
            | c # cs \<Rightarrow>
                if isSpace c then
                  (case directive_body detector_prefixes cs of
                     None \<Rightarrow> None
                   | Some (matched, after) \<Rightarrow> Some (c # matched, after, ()))
                else None) of
        Some r \<Rightarrow> Some r
      | None \<Rightarrow>
          (case prev of
             Some c \<Rightarrow> None
           | None \<Rightarrow>
               (case directive_body detector_prefixes rest of
                  None \<Rightarrow> None
                | Some (matched, after) \<Rightarrow> Some (matched, after, ()))))"

text \<open>\<open>/^(xmlns|xlink|xml|sketch):/\<close>\<close>

definition isNamespaced :: "jsstring \<Rightarrow> bool" where
  "isNamespaced attr =
     (startsWith attr (js ''xmlns:'') \<or> startsWith attr (js ''xlink:'')
      \<or> startsWith attr (js ''xml:'') \<or> startsWith attr (js ''sketch:''))"

text \<open>\<open>/\{\/\*[\s\S]*?\*\/\}/\<close>\<close>

definition m_block_comment :: "unit matcher" where
  "m_block_comment prev rest =
     (case stripPrefix (js ''{/*'') rest of
        None \<Rightarrow> None
      | Some r \<Rightarrow>
          (case splitAtFirst (js ''*/}'') r of
             None \<Rightarrow> None
           | Some (before, after) \<Rightarrow> Some (js ''{/*'' @ before @ js ''*/}'', after, ())))"

text \<open>\<open>/^\s*\/\//m\<close>\<close>

definition m_line_comment_start :: "unit matcher" where
  "m_line_comment_start prev rest =
     (if lineStart prev then
        (case stripPrefix (js ''//'') (dropWhile isSpace rest) of
           None \<Rightarrow> None
         | Some r \<Rightarrow> Some (takeWhile isSpace rest @ js ''//'', r, ()))
      else None)"

text \<open>\<open>/^\s*\/\/.*$/gm\<close>\<close>

definition notLineTerminator :: "jschar \<Rightarrow> bool" where
  "notLineTerminator c = (\<not> isLineTerminator c)"

definition m_line_comment :: "unit matcher" where
  "m_line_comment prev rest =
     (if lineStart prev then
        (case stripPrefix (js ''//'') (dropWhile isSpace rest) of
           None \<Rightarrow> None
         | Some r \<Rightarrow>
             Some (takeWhile isSpace rest @ js ''//'' @ takeWhile notLineTerminator r,
                   dropWhile notLineTerminator r, ()))
      else None)"

text \<open>
  \<open>/<style[\s\S]*?<\/style>/gi\<close>: under the \<open>i\<close> flag a letter of the pattern matches
  its upper and its lower case.  The two literals are compared with the input in lower
  case; the pieces returned are the input's own.
\<close>

definition toLowerAscii :: "jschar \<Rightarrow> jschar" where
  "toLowerAscii c = (if isUpper c then c + 0x20 else c)"

fun stripPrefix_ci :: "jsstring \<Rightarrow> jsstring \<Rightarrow> jsstring option" where
  "stripPrefix_ci [] s = Some s"
| "stripPrefix_ci (p # ps) [] = None"
| "stripPrefix_ci (p # ps) (c # cs) = (if toLowerAscii c = p then stripPrefix_ci ps cs else None)"

fun splitAtFirst_ci :: "jsstring \<Rightarrow> jsstring \<Rightarrow> (jsstring \<times> jsstring) option" where
  "splitAtFirst_ci p [] = (if p = [] then Some ([], []) else None)"
| "splitAtFirst_ci p (c # cs) =
     (case stripPrefix_ci p (c # cs) of
        Some r \<Rightarrow> Some ([], r)
      | None \<Rightarrow>
          map_option (\<lambda>(before, after). (c # before, after)) (splitAtFirst_ci p cs))"

definition m_style_block :: "unit matcher" where
  "m_style_block prev rest =
     (case stripPrefix_ci (js ''<style'') rest of
        None \<Rightarrow> None
      | Some r \<Rightarrow>
          (case splitAtFirst_ci (js ''</style>'') r of
             None \<Rightarrow> None
           | Some (before, after) \<Rightarrow>
               Some (take (length rest - length after) rest, after, ())))"

text \<open>\<open>/\{[\s\S]*?\}/\<close>\<close>

definition m_braces :: "unit matcher" where
  "m_braces prev rest =
     (case rest of
        [] \<Rightarrow> None
      | c # cs \<Rightarrow>
          if c = ch CHR ''{'' then
            (case splitAtFirst (js ''}'') cs of
               None \<Rightarrow> None
             | Some (before, after) \<Rightarrow> Some (c # before @ js ''}'', after, ()))
          else None)"

section \<open>The attribute spelling map\<close>

definition jsxToSvgAttributeMap :: "(jsstring \<times> jsstring) list" where
  "jsxToSvgAttributeMap = map (\<lambda>(jsx, svg). (js jsx, js svg))
     [(''strokeWidth'', ''stroke-width''),
      (''strokeLinecap'', ''stroke-linecap''),
      (''strokeLinejoin'', ''stroke-linejoin''),
      (''strokeDasharray'', ''stroke-dasharray''),
      (''strokeDashoffset'', ''stroke-dashoffset''),
      (''strokeMiterlimit'', ''stroke-miterlimit''),
      (''strokeOpacity'', ''stroke-opacity''),
      (''fillOpacity'', ''fill-opacity''),
      (''fillRule'', ''fill-rule''),
      (''clipPath'', ''clip-path''),
      (''clipRule'', ''clip-rule''),
      (''fontFamily'', ''font-family''),
      (''fontSize'', ''font-size''),
      (''fontStyle'', ''font-style''),
      (''fontWeight'', ''font-weight''),
      (''textAnchor'', ''text-anchor''),
      (''textDecoration'', ''text-decoration''),
      (''dominantBaseline'', ''dominant-baseline''),
      (''alignmentBaseline'', ''alignment-baseline''),
      (''baselineShift'', ''baseline-shift''),
      (''stopColor'', ''stop-color''),
      (''stopOpacity'', ''stop-opacity''),
      (''colorInterpolation'', ''color-interpolation''),
      (''colorInterpolationFilters'', ''color-interpolation-filters''),
      (''floodColor'', ''flood-color''),
      (''floodOpacity'', ''flood-opacity''),
      (''lightingColor'', ''lighting-color''),
      (''markerStart'', ''marker-start''),
      (''markerMid'', ''marker-mid''),
      (''markerEnd'', ''marker-end''),
      (''paintOrder'', ''paint-order''),
      (''vectorEffect'', ''vector-effect''),
      (''shapeRendering'', ''shape-rendering''),
      (''imageRendering'', ''image-rendering''),
      (''pointerEvents'', ''pointer-events''),
      (''xlinkHref'', ''xlink:href'')]"

text \<open>
  \<open>Object.fromEntries(Object.entries(jsxToSvgAttributeMap).map(([jsx, svg]) => [svg, jsx]))\<close>:
  the entries keep their order (no two share a value).
\<close>

definition svgToJsxAttributeMap :: "(jsstring \<times> jsstring) list" where
  "svgToJsxAttributeMap = map (\<lambda>(jsx, svg). (svg, jsx)) jsxToSvgAttributeMap"

text \<open>
  One pass of the loop \<open>svgContent = svgContent.replace(new RegExp(`\\b${from}=`, 'g'),
  `${to}=`)\<close>; no name of the map holds a \<open>$\<close>, so the replacement text is literal.
\<close>

definition replace_attribute_name :: "jsstring \<Rightarrow> jsstring \<Rightarrow> jsstring \<Rightarrow> jsstring" where
  "replace_attribute_name from to s =
     regex_replace (m_boundary_literal (from @ js ''='')) (constant_text (to @ js ''='')) None s"

fun replace_attribute_names :: "(jsstring \<times> jsstring) list \<Rightarrow> jsstring \<Rightarrow> jsstring" where
  "replace_attribute_names [] s = s"
| "replace_attribute_names ((from, to) # entries) s =
     replace_attribute_names entries (replace_attribute_name from to s)"

section \<open>The detector: isJsxSvg\<close>

fun has_attribute_of :: "(jsstring \<times> jsstring) list \<Rightarrow> jsstring \<Rightarrow> bool" where
  "has_attribute_of [] s = False"
| "has_attribute_of ((jsxAttr, svg) # entries) s =
     (if regex_test (m_boundary_literal (jsxAttr @ js ''='')) None s then True
      else has_attribute_of entries s)"

fun has_directive :: "jsstring list \<Rightarrow> bool" where
  "has_directive [] = False"
| "has_directive (m # ms) = (if isNamespaced (trim m) then has_directive ms else True)"

definition removed_text :: "jsstring \<Rightarrow> unit \<Rightarrow> jschar option \<Rightarrow> jsstring" where
  "removed_text matched c prev = []"

definition isJsxSvg :: "jsstring \<Rightarrow> bool" where
  "isJsxSvg svgContent =
     (if regex_test m_expression_value None svgContent then True
      else if regex_test m_spread None svgContent then True
      else if regex_test (m_boundary_literal (js ''className='')) None svgContent then True
      else if has_attribute_of jsxToSvgAttributeMap svgContent then True
      else if (if regex_test m_directive None svgContent
               then has_directive (regex_match_all m_directive None svgContent)
               else False) then True
      else if regex_test m_block_comment None svgContent then True
      else if regex_test m_line_comment_start None svgContent then True
      else regex_test m_braces None (regex_replace m_style_block removed_text None svgContent))"

section \<open>The expression extractor\<close>

text \<open>
  The three extraction functions share one inner loop, the search for the matching brace
  (\<open>while (j < content.length) { ... }\<close>, the same text in all three).  One turn of it
  updates \<open>balance\<close>, \<open>inString\<close> and \<open>stringChar\<close> from \<open>char = content[j]\<close> and
  \<open>prevChar = content[j - 1]\<close>; \<open>stringChar\<close> starts as the empty string.
\<close>

definition isQuote :: "jschar \<Rightarrow> bool" where
  "isQuote c = (c = DQUOTE \<or> c = SQUOTE \<or> c = BACKTICK)"

definition scan_step ::
  "jschar \<Rightarrow> jschar \<Rightarrow> int \<times> bool \<times> jsstring \<Rightarrow> int \<times> bool \<times> jsstring" where
  "scan_step char prevChar st =
     (case st of (balance, inString, stringChar) \<Rightarrow>
        if inString then
          (if [char] = stringChar then
             (if prevChar \<noteq> BACKSLASH then (balance, False, stringChar)
              else (balance, True, stringChar))
           else (balance, True, stringChar))
        else if isQuote char then (balance, True, [char])
        else if char = ch CHR ''{'' then (balance + 1, False, stringChar)
        else if char = ch CHR ''}'' then (balance - 1, False, stringChar)
        else (balance, False, stringChar))"

text \<open>
  The loop itself: \<open>Some j\<close> is \<open>found = true\<close> with the value of \<open>j\<close> after the
  closing brace, \<open>None\<close> is \<open>found = false\<close>.  (\<open>j\<close> is at least 1 wherever the loop is
  entered, so \<open>content[j - 1]\<close> is a code unit of the string.)
\<close>

function scanBrace :: "jsstring \<Rightarrow> nat \<Rightarrow> int \<times> bool \<times> jsstring \<Rightarrow> nat option" where
  "scanBrace content j st =
     (if j < length content then
        (case scan_step (content ! j) (content ! (j - 1)) st of
           (balance, inString, stringChar) \<Rightarrow>
             if \<not> inString \<and> balance = 0 then Some (j + 1)
             else scanBrace content (j + 1) (balance, inString, stringChar))
      else None)"
  by pat_completeness auto
termination
  by (relation "measure (\<lambda>(content, j, st). length content - j)") auto

declare scanBrace.simps [simp del]

definition scan_start :: "int \<times> bool \<times> jsstring" where
  "scan_start = (1, False, [])"

lemma find_sub_bound: "find_sub p s = Some k \<Longrightarrow> k + length p \<le> length s"
proof (induction s arbitrary: k)
  case Nil
  then show ?case by (simp split: if_splits)
next
  case (Cons c cs)
  have sw: "length q \<le> length t" if "startsWith t q" for t q :: jsstring
    using that by (induction t q rule: startsWith.induct) (auto split: if_splits)
  show ?case
  proof (cases "startsWith (c # cs) p")
    case True
    with Cons.prems sw [OF True] show ?thesis by simp
  next
    case False
    with Cons.prems obtain k' where "find_sub p cs = Some k'" "k = Suc k'" by auto
    with Cons.IH show ?thesis by auto
  qed
qed

lemma indexOf_bounds:
  "indexOf s p from = Some i \<Longrightarrow> p \<noteq> [] \<Longrightarrow> from \<le> i \<and> i + length p \<le> length s"
  by (cases p) (auto simp: indexOf_def dest!: find_sub_bound)

lemma indexOf_literal_bounds:
  "indexOf s (js (c # cs)) from = Some i \<Longrightarrow> from \<le> i \<and> Suc i \<le> length s"
  by (auto simp: js_def dest!: indexOf_bounds)

lemma scanBrace_bounds: "scanBrace content j st = Some j' \<Longrightarrow> j < j' \<and> j' \<le> length content"
proof (induction content j st rule: scanBrace.induct)
  case (1 content j st)
  show ?case
  proof (cases "j < length content")
    case False
    with "1.prems" show ?thesis by (simp add: scanBrace.simps [of content j st])
  next
    case True
    obtain b i s where st': "scan_step (content ! j) (content ! (j - 1)) st = (b, i, s)"
      by (cases "scan_step (content ! j) (content ! (j - 1)) st") auto
    show ?thesis
    proof (cases "\<not> i \<and> b = 0")
      case True
      with \<open>j < length content\<close> st' "1.prems" show ?thesis
        by (simp add: scanBrace.simps [of content j st])
    next
      case False
      with \<open>j < length content\<close> st' "1.prems"
      have "scanBrace content (j + 1) (b, i, s) = Some j'"
        by (auto simp add: scanBrace.simps [of content j st])
      with "1.IH" [OF \<open>j < length content\<close> st' [symmetric] refl False]
      show ?thesis by simp
    qed
  qed
qed

text \<open>
  \<open>replaceJsxExpressions\<close>: the outer loop, with the source's variables \<open>result\<close> and
  \<open>currentIndex\<close>.
\<close>

function replaceJsxExpressions_loop :: "jsstring \<Rightarrow> jsstring \<Rightarrow> nat \<Rightarrow> jsstring" where
  "replaceJsxExpressions_loop content result currentIndex =
     (if currentIndex < length content then
        (case indexOf content (js ''={'') currentIndex of
           None \<Rightarrow> result @ drop currentIndex content
         | Some startIdx \<Rightarrow>
             (case scanBrace content (startIdx + 2) scan_start of
                Some j \<Rightarrow>
                  replaceJsxExpressions_loop content
                    (result @ slice content currentIndex startIdx
                       @ js ''='' @ [DQUOTE]
                       @ encodeJsx (slice content (startIdx + 2) (j - 1)) @ [DQUOTE])
                    j
              | None \<Rightarrow>
                  replaceJsxExpressions_loop content
                    (result @ slice content currentIndex startIdx @ js ''={'')
                    (startIdx + 2)))
      else result)"
  by pat_completeness auto
termination
  by (relation "measure (\<lambda>(content, result, currentIndex). length content - currentIndex)")
    (auto dest!: indexOf_literal_bounds scanBrace_bounds)

declare replaceJsxExpressions_loop.simps [simp del]

definition replaceJsxExpressions :: "jsstring \<Rightarrow> jsstring" where
  "replaceJsxExpressions content = replaceJsxExpressions_loop content [] 0"

text \<open>
  \<open>replaceTextInterpolations\<close>.  \<open>isInsideTag\<close> is the source's name for "the last \<open>>\<close>
  at or before the brace comes after the last \<open><\<close>".
\<close>

definition isInsideTag :: "jsstring \<Rightarrow> nat \<Rightarrow> bool" where
  "isInsideTag content startIdx =
     (case lastIndexOf content (ch CHR ''>'') startIdx of
        None \<Rightarrow> False
      | Some lastOpen \<Rightarrow>
          (case lastIndexOf content (ch CHR ''<'') startIdx of
             None \<Rightarrow> True
           | Some lastClose \<Rightarrow> lastClose < lastOpen))"

function replaceTextInterpolations_loop :: "jsstring \<Rightarrow> jsstring \<Rightarrow> nat \<Rightarrow> jsstring" where
  "replaceTextInterpolations_loop content result currentIndex =
     (if currentIndex < length content then
        (case indexOf content (js ''{'') currentIndex of
           None \<Rightarrow> result @ drop currentIndex content
         | Some startIdx \<Rightarrow>
             if (0 < startIdx \<and> content ! (startIdx - 1) = ch CHR ''='')
                \<or> \<not> isInsideTag content startIdx
             then replaceTextInterpolations_loop content
                    (result @ slice content currentIndex (startIdx + 1)) (startIdx + 1)
             else if startsWith (drop (startIdx + 1) content) (js ''/*'')
             then replaceTextInterpolations_loop content
                    (result @ slice content currentIndex (startIdx + 1)) (startIdx + 1)
             else
               (case scanBrace content (startIdx + 1) scan_start of
                  Some j \<Rightarrow>
                    replaceTextInterpolations_loop content
                      (result @ slice content currentIndex startIdx
                         @ encodeJsx (slice content (startIdx + 1) (j - 1)))
                      j
                | None \<Rightarrow>
                    replaceTextInterpolations_loop content
                      (result @ slice content currentIndex startIdx @ js ''{'')
                      (startIdx + 1)))
      else result)"
  by pat_completeness auto
termination
  by (relation "measure (\<lambda>(content, result, currentIndex). length content - currentIndex)")
    (auto dest!: indexOf_literal_bounds scanBrace_bounds)

declare replaceTextInterpolations_loop.simps [simp del]

definition replaceTextInterpolations :: "jsstring \<Rightarrow> jsstring" where
  "replaceTextInterpolations content = replaceTextInterpolations_loop content [] 0"

text \<open>
  \<open>replaceJsxSpreads\<close>, with the counter \<open>spreadIndex\<close>; \<open>decimal\<close> is the number as the
  template literal prints it.
\<close>

function decimal :: "nat \<Rightarrow> jsstring" where
  "decimal n = (if n < 10 then [js ''0123456789'' ! n]
                else decimal (n div 10) @ [js ''0123456789'' ! (n mod 10)])"
  by pat_completeness auto
termination
  by (relation "measure (\<lambda>n. n)") auto

declare decimal.simps [simp del]

function replaceJsxSpreads_loop :: "jsstring \<Rightarrow> jsstring \<Rightarrow> nat \<Rightarrow> nat \<Rightarrow> jsstring" where
  "replaceJsxSpreads_loop content result currentIndex spreadIndex =
     (if currentIndex < length content then
        (case indexOf content (js ''{...'') currentIndex of
           None \<Rightarrow> result @ drop currentIndex content
         | Some startIdx \<Rightarrow>
             (case scanBrace content (startIdx + 4) scan_start of
                Some j \<Rightarrow>
                  replaceJsxSpreads_loop content
                    (result @ slice content currentIndex startIdx
                       @ js ''data-spread-'' @ decimal spreadIndex @ js ''='' @ [DQUOTE]
                       @ encodeJsx (trim (slice content (startIdx + 4) (j - 1))) @ [DQUOTE])
                    j (spreadIndex + 1)
              | None \<Rightarrow>
                  replaceJsxSpreads_loop content
                    (result @ slice content currentIndex startIdx @ js ''{...'')
                    (startIdx + 4) spreadIndex))
      else result)"
  by pat_completeness auto
termination
  by (relation "measure (\<lambda>(content, result, currentIndex, spreadIndex). length content - currentIndex)")
    (auto dest!: indexOf_literal_bounds scanBrace_bounds)

declare replaceJsxSpreads_loop.simps [simp del]

definition replaceJsxSpreads :: "jsstring \<Rightarrow> jsstring" where
  "replaceJsxSpreads content = replaceJsxSpreads_loop content [] 0 0"

section \<open>The loops as list recursions\<close>

text \<open>
  The three loops read the string by index.  Each is equal to a recursion over the rest
  of the string (proved below), which is the form the later proofs use: \<open>scan_list\<close>
  returns the scanned text (closing brace included) and what follows it; \<open>text_list\<close>
  carries what \<open>replaceTextInterpolations\<close> reads from the text before the current index,
  the previous code unit and whether the last \<open>>\<close> comes after the last \<open><\<close>.
\<close>

fun scan_list :: "jschar \<Rightarrow> jsstring \<Rightarrow> int \<times> bool \<times> jsstring \<Rightarrow> (jsstring \<times> jsstring) option" where
  "scan_list prevChar [] st = None"
| "scan_list prevChar (c # cs) st =
     (case scan_step c prevChar st of
        (balance, inString, stringChar) \<Rightarrow>
          if \<not> inString \<and> balance = 0 then Some ([c], cs)
          else map_option (\<lambda>(scanned, after). (c # scanned, after))
                 (scan_list c cs (balance, inString, stringChar)))"

lemma scanBrace_scan_list:
  "0 < j \<Longrightarrow> scan_list (content ! (j - 1)) (drop j content) st =
     (case scanBrace content j st of
        None \<Rightarrow> None
      | Some j' \<Rightarrow> Some (slice content j j', drop j' content))"
proof (induction content j st rule: scanBrace.induct)
  case (1 content j st)
  show ?case
  proof (cases "j < length content")
    case False
    then show ?thesis by (simp add: scanBrace.simps [of content j st])
  next
    case True
    then have d: "drop j content = content ! j # drop (Suc j) content"
      by (simp add: Cons_nth_drop_Suc)
    obtain b i s where st': "scan_step (content ! j) (content ! (j - 1)) st = (b, i, s)"
      by (cases "scan_step (content ! j) (content ! (j - 1)) st") auto
    show ?thesis
    proof (cases "\<not> i \<and> b = 0")
      case found: True
      have "slice content j (j + 1) = [content ! j]"
        using True by (simp add: slice_def d)
      with found True st' d show ?thesis
        by (simp add: scanBrace.simps [of content j st])
    next
      case False
      have IH: "scan_list (content ! j) (drop (j + 1) content) (b, i, s) =
          (case scanBrace content (j + 1) (b, i, s) of None \<Rightarrow> None
           | Some j' \<Rightarrow> Some (slice content (j + 1) j', drop j' content))"
        using "1.IH" [OF True st' [symmetric] refl False] by simp
      have sl: "slice content j j' = content ! j # slice content (j + 1) j'" if "j < j'" for j'
        using that True by (simp add: slice_def d Suc_diff_Suc take_Suc_Cons [symmetric] del: take_Suc_Cons)
      have unf: "scanBrace content j st = scanBrace content (j + 1) (b, i, s)"
        using False True st' by (auto simp add: scanBrace.simps [of content j st])
      show ?thesis
      proof (cases "scanBrace content (j + 1) (b, i, s)")
        case None
        with False True st' d IH unf show ?thesis by auto
      next
        case (Some j')
        from scanBrace_bounds [OF Some] have "j < j'" by simp
        from sl [OF this] Some False True st' d IH unf show ?thesis by auto
      qed
    qed
  qed
qed

lemma scan_list_length:
  "scan_list p s st = Some (scanned, after) \<Longrightarrow> s = scanned @ after \<and> scanned \<noteq> []"
  by (induction s arbitrary: p st scanned after) (auto split: prod.splits if_splits option.splits)

lemma stripPrefix_startsWith:
  "stripPrefix p s = (if startsWith s p then Some (drop (length p) s) else None)"
  by (induction p s rule: stripPrefix.induct) auto

lemma splitAtFirst_find_sub:
  "splitAtFirst p s = (case find_sub p s of None \<Rightarrow> None | Some k \<Rightarrow> Some (take k s, drop (k + length p) s))"
  by (induction s) (auto simp: stripPrefix_startsWith split: option.splits)

lemma splitAtFirst_indexOf:
  "splitAtFirst p (drop from s) =
     (case indexOf s p from of None \<Rightarrow> None
      | Some i \<Rightarrow> Some (slice s from i, drop (i + length p) s))"
  by (auto simp: splitAtFirst_find_sub indexOf_def slice_def add.commute add.left_commute split: option.splits)

lemma splitAtFirst_append:
  "splitAtFirst p s = Some (before, after) \<Longrightarrow> s = before @ p @ after"
proof (induction s arbitrary: before)
  case Nil
  then show ?case by (simp split: if_splits)
next
  case (Cons c cs)
  have sp: "t = q @ r" if "stripPrefix q t = Some r" for q t r :: jsstring
    using that by (induction q t rule: stripPrefix.induct) (auto split: if_splits)
  from Cons show ?case
    by (auto split: option.splits dest: sp)
qed


lemma splitAtFirst_shorter:
  "splitAtFirst (js (c # cs)) s = Some (before, after) \<Longrightarrow> length after < length s"
  by (auto dest!: splitAtFirst_append simp: js_def)

lemma scan_list_shorter:
  "scan_list p s st = Some (scanned, after) \<Longrightarrow> length after < length s"
  by (auto dest!: scan_list_length)

function expr_list :: "jsstring \<Rightarrow> jsstring" where
  "expr_list s =
     (case splitAtFirst (js ''={'') s of
        None \<Rightarrow> s
      | Some (before, after) \<Rightarrow>
          (case scan_list (ch CHR ''{'') after scan_start of
             Some (scanned, rest) \<Rightarrow>
               before @ js ''='' @ [DQUOTE] @ encodeJsx (butlast scanned) @ [DQUOTE]
                 @ expr_list rest
           | None \<Rightarrow> before @ js ''={'' @ expr_list after))"
  by pat_completeness auto
termination
  by (relation "measure length")
    (auto dest!: splitAtFirst_shorter scan_list_shorter)

declare expr_list.simps [simp del]

lemma startsWith_take: "startsWith t p = (take (length p) t = p)"
  by (induction t p rule: startsWith.induct) auto

lemma indexOf_startsWith:
  "indexOf s p from = Some i \<Longrightarrow> startsWith (drop i s) p"
proof -
  have "find_sub p t = Some k \<Longrightarrow> startsWith (drop k t) p" for t k
    by (induction t arbitrary: k) (auto split: if_splits)
  then show "indexOf s p from = Some i \<Longrightarrow> startsWith (drop i s) p"
    by (auto simp: indexOf_def add.commute simp flip: drop_drop)
qed

lemma startsWith_nth:
  assumes "startsWith (drop i s) p" "k < length p"
  shows "s ! (i + k) = p ! k \<and> i + length p \<le> length s"
proof -
  from assms(1) have t: "take (length p) (drop i s) = p" by (simp add: startsWith_take)
  then have "length (take (length p) (drop i s)) = length p" by simp
  then have l: "i + length p \<le> length s" using assms(2) by (simp add: min_def split: if_splits)
  from t have "take (length p) (drop i s) ! k = p ! k" by simp
  with assms(2) l show ?thesis by simp
qed

lemma butlast_slice: "j \<le> length s \<Longrightarrow> butlast (slice s a j) = slice s a (j - 1)"
  by (simp add: slice_def butlast_take diff_right_commute)

lemma replaceJsxExpressions_loop_list:
  "currentIndex \<le> length content \<Longrightarrow>
   replaceJsxExpressions_loop content result currentIndex
     = result @ expr_list (drop currentIndex content)"
proof (induction content result currentIndex rule: replaceJsxExpressions_loop.induct)
  case (1 content result currentIndex)
  show ?case
  proof (cases "currentIndex < length content")
    case False
    with "1.prems" show ?thesis
      by (subst replaceJsxExpressions_loop.simps) (simp add: expr_list.simps [of "[]"] js_def)
  next
    case True
    show ?thesis
    proof (cases "indexOf content (js ''={'') currentIndex")
      case None
      with True show ?thesis
        by (simp add: replaceJsxExpressions_loop.simps [of content result currentIndex]
            expr_list.simps [of "drop currentIndex content"] splitAtFirst_indexOf)
    next
      case (Some startIdx)
      from indexOf_literal_bounds [OF Some]
      have b: "currentIndex \<le> startIdx" "Suc startIdx \<le> length content" 
        by auto
      have sw: "startsWith (drop startIdx content) (js ''={'')" by (rule indexOf_startsWith [OF Some])
      from startsWith_nth [OF sw, of 1]
      have brace: "content ! (startIdx + 1) = ch CHR ''{''" and b2: "startIdx + 2 \<le> length content"
        by (simp_all add: js_def)
      have sp: "splitAtFirst (js ''={'') (drop currentIndex content)
          = Some (slice content currentIndex startIdx, drop (startIdx + 2) content)"
        using Some by (simp add: splitAtFirst_indexOf js_def)
      have sc: "scan_list (ch CHR ''{'') (drop (startIdx + 2) content) scan_start =
         (case scanBrace content (startIdx + 2) scan_start of None \<Rightarrow> None
          | Some j' \<Rightarrow> Some (slice content (startIdx + 2) j', drop j' content))"
        using scanBrace_scan_list [of "startIdx + 2" content scan_start] brace by simp
      show ?thesis
      proof (cases "scanBrace content (startIdx + 2) scan_start")
        case None
        from "1.IH"(1) [OF True Some None] b2
        have "replaceJsxExpressions_loop content
                (result @ slice content currentIndex startIdx @ js ''={'') (startIdx + 2)
              = (result @ slice content currentIndex startIdx @ js ''={'')
                  @ expr_list (drop (startIdx + 2) content)" by simp
        with True Some None sp sc show ?thesis
          by (simp add: replaceJsxExpressions_loop.simps [of content result currentIndex]
              expr_list.simps [of "drop currentIndex content"])
      next
        case (Some j)
        from scanBrace_bounds [OF Some] have j: "j \<le> length content" by simp
        from "1.IH"(2) [OF True \<open>indexOf content (js ''={'') currentIndex = Some startIdx\<close> Some] j
        have "replaceJsxExpressions_loop content
                (result @ slice content currentIndex startIdx @ js ''='' @ [DQUOTE]
                   @ encodeJsx (slice content (startIdx + 2) (j - 1)) @ [DQUOTE]) j
              = (result @ slice content currentIndex startIdx @ js ''='' @ [DQUOTE]
                   @ encodeJsx (slice content (startIdx + 2) (j - 1)) @ [DQUOTE])
                  @ expr_list (drop j content)" by simp
        with True \<open>indexOf content (js ''={'') currentIndex = Some startIdx\<close> Some sp sc j
        show ?thesis
          by (simp add: replaceJsxExpressions_loop.simps [of content result currentIndex]
              expr_list.simps [of "drop currentIndex content"] butlast_slice)
      qed
    qed
  qed
qed

lemma replaceJsxExpressions_list: "replaceJsxExpressions content = expr_list content"
  by (simp add: replaceJsxExpressions_def replaceJsxExpressions_loop_list)


function spread_list :: "nat \<Rightarrow> jsstring \<Rightarrow> jsstring" where
  "spread_list spreadIndex s =
     (case splitAtFirst (js ''{...'') s of
        None \<Rightarrow> s
      | Some (before, after) \<Rightarrow>
          (case scan_list (ch CHR ''.'') after scan_start of
             Some (scanned, rest) \<Rightarrow>
               before @ js ''data-spread-'' @ decimal spreadIndex @ js ''='' @ [DQUOTE]
                 @ encodeJsx (trim (butlast scanned)) @ [DQUOTE]
                 @ spread_list (spreadIndex + 1) rest
           | None \<Rightarrow> before @ js ''{...'' @ spread_list spreadIndex after))"
  by pat_completeness auto
termination
  by (relation "measure (\<lambda>(n, s). length s)")
    (auto dest!: splitAtFirst_shorter scan_list_shorter)

declare spread_list.simps [simp del]

lemma replaceJsxSpreads_loop_list:
  "currentIndex \<le> length content \<Longrightarrow>
   replaceJsxSpreads_loop content result currentIndex spreadIndex
     = result @ spread_list spreadIndex (drop currentIndex content)"
proof (induction content result currentIndex spreadIndex rule: replaceJsxSpreads_loop.induct)
  case (1 content result currentIndex spreadIndex)
  show ?case
  proof (cases "currentIndex < length content")
    case False
    with "1.prems" show ?thesis
      by (subst replaceJsxSpreads_loop.simps) (simp add: spread_list.simps [of _ "[]"] js_def)
  next
    case True
    show ?thesis
    proof (cases "indexOf content (js ''{...'') currentIndex")
      case None
      with True show ?thesis
        by (simp add: replaceJsxSpreads_loop.simps [of content result currentIndex]
            spread_list.simps [of _ "drop currentIndex content"] splitAtFirst_indexOf)
    next
      case (Some startIdx)
      have sw: "startsWith (drop startIdx content) (js ''{...'')"
        by (rule indexOf_startsWith [OF Some])
      from startsWith_nth [OF sw, of 3]
      have dot: "content ! (startIdx + 3) = ch CHR ''.''" and b2: "startIdx + 4 \<le> length content"
        by (simp_all add: js_def)
      have sp: "splitAtFirst (js ''{...'') (drop currentIndex content)
          = Some (slice content currentIndex startIdx, drop (startIdx + 4) content)"
        using Some by (simp add: splitAtFirst_indexOf js_def eval_nat_numeral)
      have sc: "scan_list (ch CHR ''.'') (drop (startIdx + 4) content) scan_start =
         (case scanBrace content (startIdx + 4) scan_start of None \<Rightarrow> None
          | Some j' \<Rightarrow> Some (slice content (startIdx + 4) j', drop j' content))"
        using scanBrace_scan_list [of "startIdx + 4" content scan_start] dot
        by (simp add: add.commute)
      show ?thesis
      proof (cases "scanBrace content (startIdx + 4) scan_start")
        case None
        from "1.IH"(1) [OF True Some None] b2
        have "replaceJsxSpreads_loop content
                (result @ slice content currentIndex startIdx @ js ''{...'') (startIdx + 4)
                spreadIndex
              = (result @ slice content currentIndex startIdx @ js ''{...'')
                  @ spread_list spreadIndex (drop (startIdx + 4) content)" by simp
        with True Some None sp sc show ?thesis
          by (simp add: replaceJsxSpreads_loop.simps [of content result currentIndex]
              spread_list.simps [of _ "drop currentIndex content"])
      next
        case (Some j)
        from scanBrace_bounds [OF Some] have j: "j \<le> length content" by simp
        from "1.IH"(2) [OF True \<open>indexOf content (js ''{...'') currentIndex = Some startIdx\<close> Some] j
        have "replaceJsxSpreads_loop content
                (result @ slice content currentIndex startIdx @ js ''data-spread-''
                   @ decimal spreadIndex @ js ''='' @ [DQUOTE]
                   @ encodeJsx (trim (slice content (startIdx + 4) (j - 1))) @ [DQUOTE]) j
                (spreadIndex + 1)
              = (result @ slice content currentIndex startIdx @ js ''data-spread-''
                   @ decimal spreadIndex @ js ''='' @ [DQUOTE]
                   @ encodeJsx (trim (slice content (startIdx + 4) (j - 1))) @ [DQUOTE])
                  @ spread_list (spreadIndex + 1) (drop j content)" by simp
        with True \<open>indexOf content (js ''{...'') currentIndex = Some startIdx\<close> Some sp sc j
        show ?thesis
          by (simp add: replaceJsxSpreads_loop.simps [of content result currentIndex]
              spread_list.simps [of _ "drop currentIndex content"] butlast_slice)
      qed
    qed
  qed
qed

lemma replaceJsxSpreads_list: "replaceJsxSpreads content = spread_list 0 content"
  by (simp add: replaceJsxSpreads_def replaceJsxSpreads_loop_list)

definition tag_step :: "bool \<Rightarrow> jschar \<Rightarrow> bool" where
  "tag_step inText c = (if c = ch CHR ''>'' then True else if c = ch CHR ''<'' then False else inText)"

fun tag_state :: "bool \<Rightarrow> jsstring \<Rightarrow> bool" where
  "tag_state inText [] = inText"
| "tag_state inText (c # cs) = tag_state (tag_step inText c) cs"

definition prev_after :: "jschar option \<Rightarrow> jsstring \<Rightarrow> jschar option" where
  "prev_after prev consumed = (case consumed of [] \<Rightarrow> prev | c # cs \<Rightarrow> Some (last consumed))"

definition afterEquals :: "jschar option \<Rightarrow> bool" where
  "afterEquals prev = (case prev of None \<Rightarrow> False | Some c \<Rightarrow> c = ch CHR ''='')"

function text_list :: "jschar option \<Rightarrow> bool \<Rightarrow> jsstring \<Rightarrow> jsstring" where
  "text_list prev inText s =
     (case splitAtFirst (js ''{'') s of
        None \<Rightarrow> s
      | Some (before, after) \<Rightarrow>
          if afterEquals (prev_after prev before) \<or> \<not> tag_state inText before
          then before @ js ''{'' @ text_list (Some (ch CHR ''{'')) (tag_state inText before) after
          else if startsWith after (js ''/*'')
          then before @ js ''{'' @ text_list (Some (ch CHR ''{'')) (tag_state inText before) after
          else
            (case scan_list (ch CHR ''{'') after scan_start of
               Some (scanned, rest) \<Rightarrow>
                 before @ encodeJsx (butlast scanned)
                   @ text_list (Some (last scanned))
                       (tag_state (tag_state inText before) scanned) rest
             | None \<Rightarrow>
                 before @ js ''{''
                   @ text_list (Some (ch CHR ''{'')) (tag_state inText before) after))"
  by pat_completeness auto
termination
  by (relation "measure (\<lambda>(p, t, s). length s)")
    (auto dest!: splitAtFirst_shorter scan_list_shorter)

declare text_list.simps [simp del]

lemma last_index_snoc:
  "last_index c (xs @ [x]) i acc = (if x = c then Some (i + length xs) else last_index c xs i acc)"
  by (induction xs arbitrary: i acc) auto

lemma last_index_bound:
  "last_index c xs i None = Some k \<Longrightarrow> k < i + length xs"
  by (induction xs rule: rev_induct) (auto simp: last_index_snoc split: if_splits)

lemma tag_state_snoc: "tag_state b (xs @ [x]) = tag_step (tag_state b xs) x"
  by (induction xs arbitrary: b) auto

lemma tag_state_append: "tag_state b (xs @ ys) = tag_state (tag_state b xs) ys"
  by (induction xs arbitrary: b) auto

lemma isInsideTag_list: 
  "(case last_index (ch CHR ''>'') xs 0 None of
        None \<Rightarrow> False
      | Some lastOpen \<Rightarrow>
          (case last_index (ch CHR ''<'') xs 0 None of
             None \<Rightarrow> True
           | Some lastClose \<Rightarrow> lastClose < lastOpen)) = tag_state False xs"
proof (induction xs rule: rev_induct)
  case Nil
  then show ?case by simp
next
  case (snoc x xs)
  then show ?case
    by (auto simp: last_index_snoc tag_state_snoc tag_step_def ch_def split: option.splits 
        dest: last_index_bound)
qed

lemma isInsideTag_tag_state: "isInsideTag content i = tag_state False (take (Suc i) content)"
  unfolding isInsideTag_def lastIndexOf_def by (rule isInsideTag_list)


definition prev_at :: "jsstring \<Rightarrow> nat \<Rightarrow> jschar option" where
  "prev_at content i = (if i = 0 then None else Some (content ! (i - 1)))"

lemma take_slice: "a \<le> b \<Longrightarrow> take b s = take a s @ slice s a b"
  using take_add [of a "b - a" s] by (simp add: slice_def)

lemma last_slice:
  assumes "a < b" "b \<le> length s"
  shows "last (slice s a b) = s ! (b - 1)"
proof -
  from assms have l: "length (slice s a b) = b - a" by (simp add: slice_def)
  with assms have "slice s a b \<noteq> []" by auto
  then have "last (slice s a b) = slice s a b ! (b - a - 1)" by (simp add: last_conv_nth l)
  also have "\<dots> = s ! (a + (b - a - 1))" using assms by (simp add: slice_def)
  also have "a + (b - a - 1) = b - 1" using assms by simp
  finally show ?thesis .
qed

lemma slice_Nil_iff: "b \<le> length s \<Longrightarrow> a \<le> b \<Longrightarrow> (slice s a b = []) = (a = b)"
  by (auto simp: slice_def)

lemma replaceTextInterpolations_loop_list:
  "currentIndex \<le> length content \<Longrightarrow>
   replaceTextInterpolations_loop content result currentIndex
     = result @ text_list (prev_at content currentIndex)
         (tag_state False (take currentIndex content)) (drop currentIndex content)"
proof (induction content result currentIndex rule: replaceTextInterpolations_loop.induct)
  case (1 content result currentIndex)
  let ?prev = "prev_at content currentIndex"
  let ?tag = "tag_state False (take currentIndex content)"
  show ?case
  proof (cases "currentIndex < length content")
    case False
    with "1.prems" show ?thesis
      by (subst replaceTextInterpolations_loop.simps)
        (simp add: text_list.simps [of _ _ "[]"] js_def)
  next
    case True
    show ?thesis
    proof (cases "indexOf content (js ''{'') currentIndex")
      case None
      with True show ?thesis
        by (simp add: replaceTextInterpolations_loop.simps [of content result currentIndex]
            text_list.simps [of _ _ "drop currentIndex content"] splitAtFirst_indexOf)
    next
      case (Some startIdx)
      note idx = Some
      let ?before = "slice content currentIndex startIdx"
      let ?after = "drop (startIdx + 1) content"
      let ?tag' = "tag_state ?tag ?before"
      from indexOf_literal_bounds [OF Some]
      have b: "currentIndex \<le> startIdx" "startIdx + 1 \<le> length content" by auto
      have sw: "startsWith (drop startIdx content) (js ''{'')"
        by (rule indexOf_startsWith [OF Some])
      from startsWith_nth [OF sw, of 0]
      have brace: "content ! startIdx = ch CHR ''{''" by (simp add: js_def)
      have sp: "splitAtFirst (js ''{'') (drop currentIndex content) = Some (?before, ?after)"
        using Some by (simp add: splitAtFirst_indexOf js_def)
      have tk: "take (Suc startIdx) content = take currentIndex content @ ?before @ [ch CHR ''{'']"
        using b brace take_slice [OF b(1), of content]
        by (simp add: take_Suc_conv_app_nth)
      have tag: "isInsideTag content startIdx = ?tag'"
        by (simp add: isInsideTag_tag_state tk tag_state_append tag_step_def ch_def)
      have tag1: "tag_state False (take (startIdx + 1) content) = ?tag'"
        using tag by (simp add: isInsideTag_tag_state)
      have prev: "(0 < startIdx \<and> content ! (startIdx - 1) = ch CHR ''='')
          = afterEquals (prev_after ?prev ?before)"
      proof (cases "currentIndex = startIdx")
        case True
        then show ?thesis
          by (auto simp: prev_after_def afterEquals_def prev_at_def slice_def)
      next
        case False
        with b have lt: "currentIndex < startIdx" by simp
        with b have ne: "?before \<noteq> []" by (simp add: slice_Nil_iff)
        from lt b have "last ?before = content ! (startIdx - 1)" by (simp add: last_slice)
        with ne lt show ?thesis
          by (cases ?before) (auto simp: prev_after_def afterEquals_def)
      qed
      have prev1: "prev_at content (startIdx + 1) = Some (ch CHR ''{'')"
        using brace by (simp add: prev_at_def)
      have sc: "scan_list (ch CHR ''{'') ?after scan_start =
         (case scanBrace content (startIdx + 1) scan_start of None \<Rightarrow> None
          | Some j' \<Rightarrow> Some (slice content (startIdx + 1) j', drop j' content))"
        using scanBrace_scan_list [of "startIdx + 1" content scan_start] brace by simp
      have skip: "replaceTextInterpolations_loop content
                (result @ slice content currentIndex (startIdx + 1)) (startIdx + 1)
              = result @ ?before @ js ''{''
                  @ text_list (Some (ch CHR ''{'')) ?tag' ?after"
        if IH: "replaceTextInterpolations_loop content
                (result @ slice content currentIndex (startIdx + 1)) (startIdx + 1)
              = (result @ slice content currentIndex (startIdx + 1))
                  @ text_list (prev_at content (startIdx + 1))
                     (tag_state False (take (startIdx + 1) content)) ?after"
      proof -
        have "slice content currentIndex (startIdx + 1) = ?before @ js ''{''"
          using b brace by (simp add: slice_def js_def Suc_diff_le take_Suc_conv_app_nth)
        with IH prev1 tag1 show ?thesis by simp
      qed
      let ?X = "result @ ?before @ js ''{'' @ text_list (Some (ch CHR ''{'')) ?tag' ?after"
      have cond: "(afterEquals (prev_after ?prev ?before) \<or> \<not> ?tag')
          = ((0 < startIdx \<and> content ! (startIdx - 1) = ch CHR ''='')
             \<or> \<not> isInsideTag content startIdx)"
        using prev tag by simp
      have TL: "result @ text_list ?prev ?tag (drop currentIndex content) =
          (if afterEquals (prev_after ?prev ?before) \<or> \<not> ?tag' then ?X
           else if startsWith ?after (js ''/*'') then ?X
           else (case scanBrace content (startIdx + 1) scan_start of
                   None \<Rightarrow> ?X
                 | Some j \<Rightarrow>
                     result @ ?before @ encodeJsx (butlast (slice content (startIdx + 1) j))
                       @ text_list (Some (last (slice content (startIdx + 1) j)))
                           (tag_state ?tag' (slice content (startIdx + 1) j))
                           (drop j content)))"
      proof (cases "scanBrace content (startIdx + 1) scan_start")
        case None
        with sc show ?thesis by (subst text_list.simps) (simp add: sp)
      next
        case (Some j)
        with sc show ?thesis by (subst text_list.simps) (simp add: sp)
      qed
      have LP: "replaceTextInterpolations_loop content result currentIndex =
          (if (0 < startIdx \<and> content ! (startIdx - 1) = ch CHR ''='')
                \<or> \<not> isInsideTag content startIdx
           then replaceTextInterpolations_loop content
                  (result @ slice content currentIndex (startIdx + 1)) (startIdx + 1)
           else if startsWith ?after (js ''/*'')
           then replaceTextInterpolations_loop content
                  (result @ slice content currentIndex (startIdx + 1)) (startIdx + 1)
           else (case scanBrace content (startIdx + 1) scan_start of
                   None \<Rightarrow> replaceTextInterpolations_loop content
                      (result @ ?before @ js ''{'') (startIdx + 1)
                 | Some j \<Rightarrow> replaceTextInterpolations_loop content
                      (result @ ?before @ encodeJsx (slice content (startIdx + 1) (j - 1))) j))"
        by (subst replaceTextInterpolations_loop.simps) (simp add: True idx)
      show ?thesis
      proof (cases "(0 < startIdx \<and> content ! (startIdx - 1) = ch CHR ''='')
                \<or> \<not> isInsideTag content startIdx")
        case c1: True
        from "1.IH"(1) [OF True idx c1] b have "replaceTextInterpolations_loop content
                (result @ slice content currentIndex (startIdx + 1)) (startIdx + 1)
              = (result @ slice content currentIndex (startIdx + 1))
                  @ text_list (prev_at content (startIdx + 1))
                     (tag_state False (take (startIdx + 1) content)) ?after" by simp
        from skip [OF this] c1 show ?thesis
          unfolding TL LP cond by (simp only: if_True)
      next
        case c1: False
        show ?thesis
        proof (cases "startsWith (drop (startIdx + 1) content) (js ''/*'')")
          case c2: True
          from "1.IH"(2) [OF True idx c1 c2] b have "replaceTextInterpolations_loop content
                (result @ slice content currentIndex (startIdx + 1)) (startIdx + 1)
              = (result @ slice content currentIndex (startIdx + 1))
                  @ text_list (prev_at content (startIdx + 1))
                     (tag_state False (take (startIdx + 1) content)) ?after" by simp
          from skip [OF this] c1 c2 show ?thesis
            unfolding TL LP cond by (simp only: if_True if_False)
        next
          case c2: False
          show ?thesis
          proof (cases "scanBrace content (startIdx + 1) scan_start")
            case None
            from "1.IH"(3) [OF True idx c1 c2 None] b
            have "replaceTextInterpolations_loop content
                (result @ ?before @ js ''{'') (startIdx + 1)
              = (result @ ?before @ js ''{'')
                  @ text_list (prev_at content (startIdx + 1))
                     (tag_state False (take (startIdx + 1) content)) ?after" by simp
            then have "replaceTextInterpolations_loop content
                (result @ ?before @ js ''{'') (startIdx + 1) = ?X"
              using prev1 tag1 by simp
            with c1 c2 None show ?thesis
              unfolding TL LP cond by (simp only: if_False option.case)
          next
            case (Some j)
            let ?scanned = "slice content (startIdx + 1) j"
            from scanBrace_bounds [OF Some] have j: "startIdx + 1 < j" "j \<le> length content"
              by simp_all
            from "1.IH"(4) [OF True idx c1 c2 Some] j
            have IH: "replaceTextInterpolations_loop content
                (result @ ?before @ encodeJsx (slice content (startIdx + 1) (j - 1))) j
              = (result @ ?before @ encodeJsx (slice content (startIdx + 1) (j - 1)))
                  @ text_list (prev_at content j) (tag_state False (take j content))
                      (drop j content)" by simp
            have p: "prev_at content j = Some (last ?scanned)"
              using j by (simp add: prev_at_def last_slice)
            have "take j content = take (startIdx + 1) content @ ?scanned"
              using j by (intro take_slice) simp
            then have t: "tag_state False (take j content) = tag_state ?tag' ?scanned"
              using tag1 by (simp add: tag_state_append)
            have bl: "butlast ?scanned = slice content (startIdx + 1) (j - 1)"
              using j by (simp add: butlast_slice)
            from IH have "replaceTextInterpolations_loop content
                (result @ ?before @ encodeJsx (slice content (startIdx + 1) (j - 1))) j
              = result @ ?before @ encodeJsx (butlast ?scanned)
                  @ text_list (Some (last ?scanned)) (tag_state ?tag' ?scanned) (drop j content)"
              unfolding p t bl by simp
            with c1 c2 Some show ?thesis
              unfolding TL LP cond by (simp only: if_False option.case)
          qed
        qed
      qed
    qed
  qed
qed

lemma replaceTextInterpolations_list:
  "replaceTextInterpolations content = text_list None False content"
  by (simp add: replaceTextInterpolations_def replaceTextInterpolations_loop_list prev_at_def)

section \<open>Comments\<close>

definition removeJsxComments :: "jsstring \<Rightarrow> jsstring" where
  "removeJsxComments content =
     regex_replace m_line_comment removed_text None
       (regex_replace m_block_comment removed_text None content)"

section \<open>The attribute protector\<close>

text \<open>
  \<open>/([a-zA-Z0-9-:@.]+)(?:=(["'])([\s\S]*?)\2)?/g\<close>.  The captures are \<open>attr\<close> and
  \<open>value\<close> (\<open>None\<close> is \<open>undefined\<close>: the optional group did not take part); the callback
  does not use \<open>quote\<close>.
\<close>

definition isAttrNameChar :: "jschar \<Rightarrow> bool" where
  "isAttrNameChar c =
     (isAlnum c \<or> c = ch CHR ''-'' \<or> c = ch CHR '':'' \<or> c = ch CHR ''@'' \<or> c = ch CHR ''.'')"

definition isAttrQuote :: "jschar \<Rightarrow> bool" where
  "isAttrQuote c = (c = DQUOTE \<or> c = SQUOTE)"

definition m_attribute :: "(jsstring \<times> jsstring option) matcher" where
  "m_attribute prev rest =
     (case takeWhile isAttrNameChar rest of
        [] \<Rightarrow> None
      | a # as \<Rightarrow>
          (case dropWhile isAttrNameChar rest of
             [] \<Rightarrow> Some (a # as, [], (a # as, None))
           | e # r1 \<Rightarrow>
               if e = ch CHR ''='' then
                 (case r1 of
                    [] \<Rightarrow> Some (a # as, e # r1, (a # as, None))
                  | q # r \<Rightarrow>
                      if isAttrQuote q then
                        (case splitAtFirst [q] r of
                           None \<Rightarrow> Some (a # as, e # r1, (a # as, None))
                         | Some (v, after) \<Rightarrow>
                             Some ((a # as) @ e # q # v @ [q], after, (a # as, Some v)))
                      else Some (a # as, e # r1, (a # as, None)))
               else Some (a # as, e # r1, (a # as, None))))"

text \<open>
  \<open>/^(client:|v-|on:|bind:|class:|use:|let:|animate:|transition:|[:@])/.test(attr) &&
  !/^(xmlns|xlink|xml|sketch):/.test(attr)\<close>
\<close>

definition protector_prefixes :: "jsstring list" where
  "protector_prefixes = map js [''client:'', ''v-'', ''on:'', ''bind:'', ''class:'', ''use:'',
     ''let:'', ''animate:'', ''transition:'', '':'', ''@'']"

fun startsWithAny :: "jsstring list \<Rightarrow> jsstring \<Rightarrow> bool" where
  "startsWithAny [] s = False"
| "startsWithAny (p # ps) s = (if startsWith s p then True else startsWithAny ps s)"

definition isDirective :: "jsstring \<Rightarrow> bool" where
  "isDirective attr = (if startsWithAny protector_prefixes attr then \<not> isNamespaced attr else False)"

text \<open>\<open>value?.includes(BASE64_PREFIX)\<close>, as a truth value.\<close>

definition isEncoded :: "jsstring option \<Rightarrow> bool" where
  "isEncoded v = (case v of None \<Rightarrow> False | Some s \<Rightarrow> includes_str s BASE64_PREFIX)"

text \<open>
  \<open>attr.replace(/:/g, '__COLON__').replace(/@/g, '__AT__').replace(/\./g, '__DOT__')\<close>
\<close>

definition safeAttr :: "jsstring \<Rightarrow> jsstring" where
  "safeAttr attr =
     replace_literal (js ''.'') (js ''__DOT__'')
       (replace_literal (js ''@'') (js ''__AT__'')
          (replace_literal (js '':'') (js ''__COLON__'') attr))"

text \<open>\<open>prevChar && !/\s|<|>/.test(prevChar)\<close>\<close>

definition notAfterSeparator :: "jschar option \<Rightarrow> bool" where
  "notAfterSeparator prevChar =
     (case prevChar of
        None \<Rightarrow> False
      | Some c \<Rightarrow> \<not> (isSpace c \<or> c = ch CHR ''<'' \<or> c = ch CHR ''>''))"

definition protect_callback ::
  "jsstring \<Rightarrow> jsstring \<times> jsstring option \<Rightarrow> jschar option \<Rightarrow> jsstring" where
  "protect_callback matched caps prevChar =
     (case caps of (attr, v) \<Rightarrow>
        if notAfterSeparator prevChar then matched
        else if startsWith attr (js ''data-better-svg-temp-'') then matched
        else if (if isEncoded v then False else \<not> isDirective attr) then matched
        else
          (case v of
             Some val \<Rightarrow>
               js ''data-better-svg-temp-'' @ safeAttr attr @ js ''='' @ [DQUOTE] @ val @ [DQUOTE]
           | None \<Rightarrow>
               js ''data-better-svg-temp-'' @ safeAttr attr @ js ''='' @ [DQUOTE]
                 @ js ''__BOOLEAN__'' @ [DQUOTE]))"

definition protectEncodedAttributes :: "jsstring \<Rightarrow> jsstring" where
  "protectEncodedAttributes content = regex_replace m_attribute protect_callback None content"

text \<open>
  \<open>/data-better-svg-temp-([a-zA-Z0-9-_]+)="([^"]*)"/g\<close>, with the captures \<open>safeAttr\<close>
  and \<open>value\<close>.
\<close>

definition isSafeNameChar :: "jschar \<Rightarrow> bool" where
  "isSafeNameChar c = (isAlnum c \<or> c = ch CHR ''-'' \<or> c = ch CHR ''_'')"

definition notDQuote :: "jschar \<Rightarrow> bool" where
  "notDQuote c = (c \<noteq> DQUOTE)"

text \<open>\<open>="([^"]*)"\<close>: the value and what follows the closing quote.\<close>

definition quoted_value :: "jsstring \<Rightarrow> (jsstring \<times> jsstring) option" where
  "quoted_value s =
     (case stripPrefix (js ''='' @ [DQUOTE]) s of
        None \<Rightarrow> None
      | Some r \<Rightarrow>
          (case dropWhile notDQuote r of
             [] \<Rightarrow> None
           | q # after \<Rightarrow> Some (takeWhile notDQuote r, after)))"

definition m_protected :: "(jsstring \<times> jsstring) matcher" where
  "m_protected prev rest =
     (case stripPrefix (js ''data-better-svg-temp-'') rest of
        None \<Rightarrow> None
      | Some r \<Rightarrow>
          (case takeWhile isSafeNameChar r of
             [] \<Rightarrow> None
           | a # as \<Rightarrow>
               (case quoted_value (dropWhile isSafeNameChar r) of
                  None \<Rightarrow> None
                | Some (v, after) \<Rightarrow>
                    Some (js ''data-better-svg-temp-'' @ (a # as) @ js ''='' @ [DQUOTE] @ v
                            @ [DQUOTE],
                          after, (a # as, v)))))"

definition restore_callback :: "jsstring \<Rightarrow> jsstring \<times> jsstring \<Rightarrow> jschar option \<Rightarrow> jsstring" where
  "restore_callback matched caps prevChar =
     (case caps of (safe, v) \<Rightarrow>
        (if v = js ''__BOOLEAN__''
         then replace_literal (js ''__DOT__'') (js ''.'')
                (replace_literal (js ''__AT__'') (js ''@'')
                   (replace_literal (js ''__COLON__'') (js '':'') safe))
         else replace_literal (js ''__DOT__'') (js ''.'')
                (replace_literal (js ''__AT__'') (js ''@'')
                   (replace_literal (js ''__COLON__'') (js '':'') safe))
                @ js ''='' @ [DQUOTE] @ v @ [DQUOTE]))"

definition restoreEncodedAttributes :: "jsstring \<Rightarrow> jsstring" where
  "restoreEncodedAttributes content = regex_replace m_protected restore_callback None content"

section \<open>The reverse stage's decoders\<close>

text \<open>\<open>/\bdata-spread-\d+="([^"]*)"/g\<close>, with the capture \<open>value\<close>.\<close>

definition m_spread_attribute :: "jsstring matcher" where
  "m_spread_attribute prev rest =
     (case stripPrefix (js ''data-spread-'') rest of
        None \<Rightarrow> None
      | Some r \<Rightarrow>
          if wordBoundary prev rest then
            (case takeWhile isDigit r of
               [] \<Rightarrow> None
             | d # ds \<Rightarrow>
                 (case quoted_value (dropWhile isDigit r) of
                    None \<Rightarrow> None
                  | Some (v, after) \<Rightarrow>
                      Some (js ''data-spread-'' @ (d # ds) @ js ''='' @ [DQUOTE] @ v @ [DQUOTE],
                            after, v)))
          else None)"

definition unescape_entities :: "jsstring \<Rightarrow> jsstring" where
  "unescape_entities v =
     replace_literal (js ''&amp;'') (js ''&'')
       (replace_literal (js ''&lt;'') (js ''<'')
          (replace_literal (js ''&gt;'') (js ''>'')
             (replace_literal (js ''&quot;'') [DQUOTE] v)))"

definition spread_callback :: "jsstring \<Rightarrow> jsstring \<Rightarrow> jschar option \<Rightarrow> jsstring" where
  "spread_callback matched v prevChar =
     (case decodeJsx v of
        Some decoded \<Rightarrow> js ''{...'' @ decoded @ js ''}''
      | None \<Rightarrow> js ''{...'' @ unescape_entities v @ js ''}'')"

text \<open>
  A lazy run of characters outside \<open>excluded\<close> up to the first place where \<open>close\<close>
  follows (\<open>[^"']*?\<close> or \<open>[^<]*?\<close> and then the rest of the pattern): the run and the
  input after \<open>close\<close>.
\<close>

fun lazy_until ::
  "(jschar \<Rightarrow> bool) \<Rightarrow> jsstring \<Rightarrow> jsstring \<Rightarrow> (jsstring \<times> jsstring) option" where
  "lazy_until excluded close [] =
     (case stripPrefix close [] of None \<Rightarrow> None | Some r \<Rightarrow> Some ([], r))"
| "lazy_until excluded close (c # cs) =
     (case stripPrefix close (c # cs) of
        Some r \<Rightarrow> Some ([], r)
      | None \<Rightarrow>
          if excluded c then None
          else map_option (\<lambda>(mid, after). (c # mid, after)) (lazy_until excluded close cs))"

text \<open>
  \<open>/([a-zA-Z0-9-:@.]+)=(["'])(__JSX_BASE64__[^"']*?__)\2/g\<close>, with the captures \<open>attr\<close>
  and \<open>value\<close>.
\<close>

definition m_encoded_attribute :: "(jsstring \<times> jsstring) matcher" where
  "m_encoded_attribute prev rest =
     (case takeWhile isAttrNameChar rest of
        [] \<Rightarrow> None
      | a # as \<Rightarrow>
          (case dropWhile isAttrNameChar rest of
             [] \<Rightarrow> None
           | e # r1 \<Rightarrow>
               if e = ch CHR ''='' then
                 (case r1 of
                    [] \<Rightarrow> None
                  | q # r \<Rightarrow>
                      if isAttrQuote q then
                        (case stripPrefix BASE64_PREFIX r of
                           None \<Rightarrow> None
                         | Some r2 \<Rightarrow>
                             (case lazy_until isAttrQuote (js ''__'' @ [q]) r2 of
                                None \<Rightarrow> None
                              | Some (mid, after) \<Rightarrow>
                                  Some ((a # as) @ e # q # BASE64_PREFIX @ mid @ js ''__'' @ [q],
                                        after, (a # as, BASE64_PREFIX @ mid @ js ''__''))))
                      else None)
               else None))"

definition attribute_callback ::
  "jsstring \<Rightarrow> jsstring \<times> jsstring \<Rightarrow> jschar option \<Rightarrow> jsstring" where
  "attribute_callback matched caps prevChar =
     (case caps of (attr, v) \<Rightarrow>
        (case decodeJsx v of
           Some decoded \<Rightarrow> attr @ js ''={'' @ decoded @ js ''}''
         | None \<Rightarrow> matched))"

text \<open>\<open>/>(__JSX_BASE64__[^<]*?__)</g\<close>, with the capture \<open>value\<close>.\<close>

definition isLessThan :: "jschar \<Rightarrow> bool" where
  "isLessThan c = (c = ch CHR ''<'')"

definition m_encoded_text :: "jsstring matcher" where
  "m_encoded_text prev rest =
     (case stripPrefix (js ''>'' @ BASE64_PREFIX) rest of
        None \<Rightarrow> None
      | Some r \<Rightarrow>
          (case lazy_until isLessThan (js ''__<'') r of
             None \<Rightarrow> None
           | Some (mid, after) \<Rightarrow>
               Some (js ''>'' @ BASE64_PREFIX @ mid @ js ''__<'', after,
                     BASE64_PREFIX @ mid @ js ''__'')))"

definition text_callback :: "jsstring \<Rightarrow> jsstring \<Rightarrow> jschar option \<Rightarrow> jsstring" where
  "text_callback matched v prevChar =
     (case decodeJsx v of
        Some decoded \<Rightarrow> js ''>{'' @ decoded @ js ''}<''
      | None \<Rightarrow> matched)"

section \<open>The two conversions and the entry points\<close>

text \<open>
  \<open>interface OptimizationOptions { useCamelCase?: boolean }\<close>: the property may be
  absent.  An omitted \<open>options\<close> argument is the default \<open>{ useCamelCase: true }\<close>.
\<close>

record OptimizationOptions =
  useCamelCase :: "bool option"

definition default_options :: OptimizationOptions where
  "default_options = \<lparr>useCamelCase = Some True\<rparr>"

text \<open>The test \<open>if (options.useCamelCase)\<close>.\<close>

definition camelCase_on :: "OptimizationOptions \<Rightarrow> bool" where
  "camelCase_on options = (case useCamelCase options of None \<Rightarrow> False | Some b \<Rightarrow> b)"

definition convertJsxToSvg :: "jsstring \<Rightarrow> OptimizationOptions \<Rightarrow> jsstring" where
  "convertJsxToSvg svgContent options =
     protectEncodedAttributes
       ((if camelCase_on options
         then (\<lambda>s. replace_attribute_names jsxToSvgAttributeMap
                 (replace_attribute_name (js ''className'') (js ''class'') s))
         else (\<lambda>s. s))
        (replaceJsxSpreads
          (replaceTextInterpolations
            (replaceJsxExpressions
              (removeJsxComments svgContent)))))"

definition convertSvgToJsx :: "jsstring \<Rightarrow> OptimizationOptions \<Rightarrow> jsstring" where
  "convertSvgToJsx svgContent options =
     regex_replace m_encoded_text text_callback None
       (regex_replace m_encoded_attribute attribute_callback None
         (regex_replace m_spread_attribute spread_callback None
           ((if camelCase_on options
             then (\<lambda>s. replace_attribute_names svgToJsxAttributeMap
                     (replace_attribute_name (js ''class'') (js ''className'') s))
             else (\<lambda>s. s))
            (restoreEncodedAttributes svgContent))))"

record Prepared =
  preparedSvg :: jsstring
  wasJsx :: bool

definition prepareForOptimization :: "jsstring \<Rightarrow> OptimizationOptions \<Rightarrow> Prepared" where
  "prepareForOptimization svgContent options =
     (if isJsxSvg svgContent
      then \<lparr>preparedSvg = convertJsxToSvg svgContent options, wasJsx = True\<rparr>
      else \<lparr>preparedSvg = svgContent, wasJsx = False\<rparr>)"

definition finalizeAfterOptimization :: "jsstring \<Rightarrow> bool \<Rightarrow> OptimizationOptions \<Rightarrow> jsstring" where
  "finalizeAfterOptimization optimizedSvg wasJsxArg options =
     (if wasJsxArg then convertSvgToJsx optimizedSvg options else optimizedSvg)"

section \<open>Evaluation by rewriting\<close>

text \<open>
  The concrete runs below are computed inside the logic, by rewriting with the defining
  equations.  Comparisons of code units are decided on their numerals, the index loops are
  run in their list form, and a conditional is entered only once its test is decided.
\<close>

lemma w16_eq: "numeral a < (65536::nat) \<Longrightarrow> numeral b < (65536::nat) \<Longrightarrow> ((numeral a :: 16 word) = numeral b) = (a = b)"
proof -
  assume a: "numeral a < (65536::nat)" and b: "numeral b < (65536::nat)"
  have *: "(2::nat) ^ LENGTH(16) = 65536" by simp
  have u: "unat (numeral a :: 16 word) = numeral a" "unat (numeral b :: 16 word) = numeral b"
    unfolding unat_numeral * by (rule mod_less [OF a], rule mod_less [OF b])
  show ?thesis
  proof
    assume "(numeral a :: 16 word) = numeral b"
    then have "unat (numeral a :: 16 word) = unat (numeral b :: 16 word)" by (rule arg_cong)
    then have "(numeral a :: nat) = numeral b" unfolding u .
    then show "a = b" by (simp only: numeral_eq_iff)
  next
    assume "a = b" then show "(numeral a :: 16 word) = numeral b" by (rule arg_cong)
  qed
qed
lemma w16_le: "numeral a < (65536::nat) \<Longrightarrow> numeral b < (65536::nat) \<Longrightarrow> ((numeral a :: 16 word) \<le> numeral b) = (a \<le> b)"
proof -
  assume a: "numeral a < (65536::nat)" and b: "numeral b < (65536::nat)"
  have *: "(2::nat) ^ LENGTH(16) = 65536" by simp
  have u: "unat (numeral a :: 16 word) = numeral a" "unat (numeral b :: 16 word) = numeral b"
    unfolding unat_numeral * by (rule mod_less [OF a], rule mod_less [OF b])
  show ?thesis unfolding word_le_nat_alt u by (simp only: numeral_le_iff)
qed
lemma uint16_numeral: "numeral a < (65536::nat) \<Longrightarrow> uint (numeral a :: 16 word) = numeral a"
proof -
  assume a: "numeral a < (65536::nat)"
  have *: "(2::nat) ^ LENGTH(16) = 65536" by simp
  have "unat (numeral a :: 16 word) = numeral a"
    unfolding unat_numeral * by (rule mod_less [OF a])
  then have "int (unat (numeral a :: 16 word)) = int (numeral a)" by (rule arg_cong)
  then show ?thesis by simp
qed
lemma uint8_numeral: "numeral a < (256::nat) \<Longrightarrow> uint (numeral a :: 8 word) = numeral a"
proof -
  assume a: "numeral a < (256::nat)"
  have *: "(2::nat) ^ LENGTH(8) = 256" by simp
  have "unat (numeral a :: 8 word) = numeral a"
    unfolding unat_numeral * by (rule mod_less [OF a])
  then have "int (unat (numeral a :: 8 word)) = int (numeral a)" by (rule arg_cong)
  then show ?thesis by simp
qed

lemma butlast2: "butlast (butlast r) = take (length r - 2) r"
  by (simp add: butlast_conv_take numeral_2_eq_2)

lemma decodeJsx_list:
  "decodeJsx content =
     (case stripPrefix BASE64_PREFIX content of
        None \<Rightarrow> None
      | Some r \<Rightarrow>
          if endsWith content BASE64_SUFFIX
          then Some (utf8_decode (base64_decode (butlast (butlast r))))
          else None)"
  by (auto simp: decodeJsx_def stripPrefix_startsWith slice_def butlast2 BASE64_PREFIX_def BASE64_SUFFIX_def js_def)

lemma decimal_digit: "n < 10 \<Longrightarrow> decimal n = [js ''0123456789'' ! n]"
  by (simp add: decimal.simps)

lemma nth_Cons_one: "(x # xs) ! 1 = xs ! 0" by simp

text \<open>The rewrite rules of a run.\<close>

lemmas eval_rules = w16_eq w16_le uint16_numeral uint8_numeral rel_simps arith_simps simp_thms if_True if_False
  option.case list.case prod.case option.distinct option.inject list.distinct list.inject prod.inject
  append.simps takeWhile.simps dropWhile.simps last.simps rev.simps list.map butlast.simps
  js_def ch_def of_char_Char horner_sum_simps of_bool_eq 
  mult_1_right mult_zero_right one_plus_numeral numeral_plus_one
  one_add_one diff_numeral_special mult_1 nth_Cons_one
  startsWith.simps stripPrefix.simps splitAtFirst.simps regex_test.simps regex_replace.simps regex_match_all.simps shorter.simps
  wordBefore_def wordAfter_def wordBoundary_def lineStart_def m_boundary_literal_def m_literal_def constant_text_def
  replace_literal_def m_expression_value_def m_spread_def detector_prefixes_def isDirectiveNameChar_def directive_body.simps
  m_directive_def isNamespaced_def m_block_comment_def m_line_comment_start_def notLineTerminator_def m_line_comment_def
  toLowerAscii_def stripPrefix_ci.simps splitAtFirst_ci.simps m_style_block_def m_braces_def jsxToSvgAttributeMap_def svgToJsxAttributeMap_def
  replace_attribute_name_def replace_attribute_names.simps has_attribute_of.simps has_directive.simps removed_text_def isJsxSvg_def
  isUpper_def isLower_def isDigit_def isAlnum_def isWordChar_def isLineTerminator_def isSpace_def trim_def
  DQUOTE_def SQUOTE_def BACKTICK_def BACKSLASH_def
  endsWith_def includes_str_def find_sub.simps option.map
  isHighSurrogate_def isLowSurrogate_def utf8_of_code_point_def utf8_encode.simps isCont_def code_units_def utf8_decode.simps
  b64_digit_def base64_encode.simps b64_byte_value_def b64_value_def b64_bytes.simps base64_decode_def List.map_filter_simps
  BASE64_PREFIX_def BASE64_SUFFIX_def encodeJsx_def decodeJsx_list
  word_of_int_numeral numeral_div_numeral numeral_mod_numeral divmod_algorithm_code fst_conv snd_conv Let_def
  divmod_step_def case_prod_conv div_0 mod_0
  isQuote_def scan_step_def scan_start_def scan_list.simps
  replaceJsxExpressions_list replaceTextInterpolations_list replaceJsxSpreads_list
  expr_list.simps text_list.simps spread_list.simps tag_step_def tag_state.simps prev_after_def afterEquals_def
  decimal_digit nth_Cons_0 nth_Cons_numeral pred_numeral_simps
  removeJsxComments_def isAttrNameChar_def isAttrQuote_def m_attribute_def protector_prefixes_def startsWithAny.simps
  isDirective_def isEncoded_def safeAttr_def notAfterSeparator_def protect_callback_def protectEncodedAttributes_def
  isSafeNameChar_def notDQuote_def quoted_value_def m_protected_def restore_callback_def restoreEncodedAttributes_def
  m_spread_attribute_def unescape_entities_def spread_callback_def lazy_until.simps m_encoded_attribute_def attribute_callback_def
  isLessThan_def m_encoded_text_def text_callback_def
  OptimizationOptions.simps Prepared.simps default_options_def camelCase_on_def
  convertJsxToSvg_def convertSvgToJsx_def prepareForOptimization_def finalizeAfterOptimization_def

lemmas eval_congs = if_weak_cong option.case_cong_weak list.case_cong_weak prod.case_cong_weak

section \<open>Concrete runs\<close>

subsection \<open>A numeric attribute value\<close>

lemma detect_strokeWidth: "isJsxSvg (js ''<svg><path strokeWidth={2} /></svg>'')"
  by (simp only: eval_rules cong: eval_congs)

lemma forward_strokeWidth:
  \<open>convertJsxToSvg (js ''<svg><path strokeWidth={2} /></svg>'') default_options
     = js ''<svg><path data-better-svg-temp-stroke-width="__JSX_BASE64__Mg==__" /></svg>''\<close>
  by (simp only: eval_rules cong: eval_congs)

lemma reverse_strokeWidth:
  \<open>convertSvgToJsx
       (js ''<svg><path data-better-svg-temp-stroke-width="__JSX_BASE64__Mg==__" /></svg>'')
       default_options
     = js ''<svg><path strokeWidth={2} /></svg>''\<close>
  by (simp only: eval_rules cong: eval_congs)

lemma placeholder_2: "encodeJsx (js ''2'') = js ''__JSX_BASE64__Mg==__''"
  by (simp only: eval_rules cong: eval_congs)

text \<open>
  C3 (as the code has it).  With \<open>useCamelCase: true\<close> the fragment
  \<open><svg><path strokeWidth={2} /></svg>\<close> is classified as JSX and prepared to
  \<open><svg><path data-better-svg-temp-stroke-width="__JSX_BASE64__Mg==__" /></svg>\<close>: the
  expression \<open>2\<close> is stored as its placeholder \<open>__JSX_BASE64__Mg==__\<close> and the attribute
  carrying it is renamed by the protector.  The prepared fragment is finalized back to the
  original.
\<close>

theorem C3_strokeWidth_prepared_and_restored:
  \<open>prepareForOptimization (js ''<svg><path strokeWidth={2} /></svg>'') default_options
     = \<lparr>preparedSvg =
          js ''<svg><path data-better-svg-temp-stroke-width="__JSX_BASE64__Mg==__" /></svg>'',
        wasJsx = True\<rparr>
   \<and> encodeJsx (js ''2'') = js ''__JSX_BASE64__Mg==__''
   \<and> finalizeAfterOptimization
         (preparedSvg
           (prepareForOptimization (js ''<svg><path strokeWidth={2} /></svg>'') default_options))
         True default_options
       = js ''<svg><path strokeWidth={2} /></svg>''\<close>
  by (simp only: prepareForOptimization_def finalizeAfterOptimization_def detect_strokeWidth
        forward_strokeWidth reverse_strokeWidth placeholder_2 if_True Prepared.select_convs
        simp_thms)

text \<open>
  C3 (as the specification words it) fails: the prepared fragment is not
  \<open><svg><path stroke-width="2" /></svg>\<close>.
\<close>

theorem C3_prepared_is_not_plain_literal:
  \<open>preparedSvg
     (prepareForOptimization (js ''<svg><path strokeWidth={2} /></svg>'') default_options)
     \<noteq> js ''<svg><path stroke-width="2" /></svg>''\<close>
proof -
  have \<open>js ''<svg><path data-better-svg-temp-stroke-width="__JSX_BASE64__Mg==__" /></svg>''
          \<noteq> js ''<svg><path stroke-width="2" /></svg>''\<close>
    by (simp only: eval_rules cong: eval_congs)
  then show ?thesis
    by (simp only: prepareForOptimization_def detect_strokeWidth forward_strokeWidth if_True
          Prepared.select_convs simp_thms)
qed

subsection \<open>A fragment without foreign syntax\<close>

lemma detect_plain: \<open>\<not> isJsxSvg (js ''<svg class="icon"><path stroke-width="2" /></svg>'')\<close>
  by (simp only: eval_rules cong: eval_congs)

text \<open>
  C2.  A fragment that the detector does not classify as JSX is returned as it is, with
  \<open>wasJsx = false\<close>, whatever the options are.
\<close>

theorem C2_plain_fragment_unchanged:
  "\<not> isJsxSvg f \<Longrightarrow> prepareForOptimization f options = \<lparr>preparedSvg = f, wasJsx = False\<rparr>"
  by (simp add: prepareForOptimization_def)

theorem C2_plain_fragment_witness:
  \<open>\<not> isJsxSvg (js ''<svg class="icon"><path stroke-width="2" /></svg>'')
   \<and> prepareForOptimization (js ''<svg class="icon"><path stroke-width="2" /></svg>'')
         default_options
       = \<lparr>preparedSvg = js ''<svg class="icon"><path stroke-width="2" /></svg>'',
          wasJsx = False\<rparr>\<close>
  by (rule conjI [OF detect_plain C2_plain_fragment_unchanged [OF detect_plain]])

subsection \<open>An expression that is never closed\<close>

lemma scanBrace_None_list:
  "0 < j \<Longrightarrow>
     (scanBrace content j st = None) = (scan_list (content ! (j - 1)) (drop j content) st = None)"
  using scanBrace_scan_list [of j content st] by (cases "scanBrace content j st") auto

text \<open>
  C8.  Whenever the loop of \<open>replaceJsxExpressions\<close>, in any state (\<open>result\<close>,
  \<open>currentIndex\<close>), finds its next \<open>={\<close> at \<open>startIdx\<close> and the search for the matching
  brace reaches the end of the content, it appends the text before the delimiter and the
  delimiter \<open>={\<close> itself to \<open>result\<close> and goes on at \<open>startIdx + 2\<close>; what it returns is
  this text followed by what \<open>replaceJsxExpressions\<close> makes of the content after the
  delimiter.  (\<open>replaceJsxExpressions content\<close> is the loop started with the empty
  \<open>result\<close> at index 0, and the loop is a total function: it returns for every content.)
\<close>

theorem C8_unclosed_expression_is_kept:
  assumes "indexOf content (js ''={'') currentIndex = Some startIdx"
    and "scanBrace content (startIdx + 2) scan_start = None"
  shows "replaceJsxExpressions_loop content result currentIndex
           = replaceJsxExpressions_loop content
               (result @ slice content currentIndex startIdx @ js ''={'') (startIdx + 2)
         \<and> replaceJsxExpressions_loop content result currentIndex
           = result @ slice content currentIndex startIdx @ js ''={''
               @ replaceJsxExpressions (drop (startIdx + 2) content)"
proof -
  have len: "length (js ''={'') = 2" by (simp add: js_def)
  from indexOf_bounds [OF assms(1)]
  have b: "currentIndex \<le> startIdx" "startIdx + 2 \<le> length content"
    by (simp_all add: js_def)
  then have lt: "currentIndex < length content" by simp
  have step: "replaceJsxExpressions_loop content result currentIndex
           = replaceJsxExpressions_loop content
               (result @ slice content currentIndex startIdx @ js ''={'') (startIdx + 2)"
    using lt assms by (subst replaceJsxExpressions_loop.simps) simp
  have "replaceJsxExpressions_loop content
               (result @ slice content currentIndex startIdx @ js ''={'') (startIdx + 2)
        = (result @ slice content currentIndex startIdx @ js ''={'')
            @ expr_list (drop (startIdx + 2) content)"
    by (rule replaceJsxExpressions_loop_list [OF b(2)])
  with step show ?thesis by (simp add: replaceJsxExpressions_list)
qed

theorem C8_unclosed_expression_witness:
  \<open>indexOf (js ''<svg a={1} b={c></svg>'') (js ''={'') 10 = Some 12
   \<and> scanBrace (js ''<svg a={1} b={c></svg>'') (12 + 2) scan_start = None
   \<and> replaceJsxExpressions_loop (js ''<svg a={1} b={c></svg>'')
         (js ''<svg a="__JSX_BASE64__MQ==__"'') 10
       = replaceJsxExpressions_loop (js ''<svg a={1} b={c></svg>'')
           (js ''<svg a="__JSX_BASE64__MQ==__"'' @ slice (js ''<svg a={1} b={c></svg>'') 10 12
              @ js ''={'')
           (12 + 2)
   \<and> replaceJsxExpressions_loop (js ''<svg a={1} b={c></svg>'')
         (js ''<svg a="__JSX_BASE64__MQ==__"'') 10
       = js ''<svg a="__JSX_BASE64__MQ==__"'' @ slice (js ''<svg a={1} b={c></svg>'') 10 12
           @ js ''={'' @ replaceJsxExpressions (drop (12 + 2) (js ''<svg a={1} b={c></svg>''))
   \<and> replaceJsxExpressions (js ''<svg a={1} b={c></svg>'')
       = js ''<svg a="__JSX_BASE64__MQ==__" b={c></svg>''\<close>
proof -
  have i: "indexOf (js ''<svg a={1} b={c></svg>'') (js ''={'') 10 = Some 12"
    by (simp add: indexOf_def js_def ch_def)
  have s: "scanBrace (js ''<svg a={1} b={c></svg>'') (12 + 2) scan_start = None"
    by (simp add: scanBrace_None_list)
      (simp add: js_def ch_def scan_start_def scan_step_def isQuote_def DQUOTE_def SQUOTE_def
         BACKTICK_def BACKSLASH_def)
  have r: \<open>replaceJsxExpressions (js ''<svg a={1} b={c></svg>'')
       = js ''<svg a="__JSX_BASE64__MQ==__" b={c></svg>''\<close>
    by (simp only: eval_rules cong: eval_congs)
  note t = C8_unclosed_expression_is_kept [OF i s, of \<open>js ''<svg a="__JSX_BASE64__MQ==__"''\<close>]
  show ?thesis
    by (rule conjI [OF i conjI [OF s conjI [OF t [THEN conjunct1] conjI [OF t [THEN conjunct2] r]]]])
qed

subsection \<open>A directive without a value\<close>

lemma detect_client_only: \<open>isJsxSvg (js ''<svg client:only xmlns="..."></svg>'')\<close>
  by (simp only: eval_rules cong: eval_congs)

lemma forward_client_only:
  \<open>convertJsxToSvg (js ''<svg client:only xmlns="..."></svg>'') default_options
     = js ''<svg data-better-svg-temp-client__COLON__only="__BOOLEAN__" xmlns="..."></svg>''\<close>
  by (simp only: eval_rules cong: eval_congs)

lemma reverse_client_only:
  \<open>convertSvgToJsx
       (js ''<svg data-better-svg-temp-client__COLON__only="__BOOLEAN__" xmlns="..."></svg>'')
       default_options
     = js ''<svg client:only xmlns="..."></svg>''\<close>
  by (simp only: eval_rules cong: eval_congs)

lemma no_sentinel_client_only:
  \<open>\<not> includes_str (js ''<svg client:only xmlns="..."></svg>'') (js ''__BOOLEAN__'')\<close>
  by (simp only: eval_rules cong: eval_congs)

text \<open>
  C6.  The fragment \<open><svg client:only xmlns="..."></svg>\<close> is classified as JSX.  The
  forward pass renames the valueless directive to
  \<open>data-better-svg-temp-client__COLON__only\<close> and gives it the value \<open>__BOOLEAN__\<close>; the
  reverse pass returns the original fragment, with \<open>client:only\<close> as a bare attribute and
  no \<open>__BOOLEAN__\<close> in it.
\<close>

theorem C6_boolean_directive_protected_and_restored:
  \<open>prepareForOptimization (js ''<svg client:only xmlns="..."></svg>'') default_options
     = \<lparr>preparedSvg =
          js ''<svg data-better-svg-temp-client__COLON__only="__BOOLEAN__" xmlns="..."></svg>'',
        wasJsx = True\<rparr>
   \<and> finalizeAfterOptimization
         (preparedSvg
           (prepareForOptimization (js ''<svg client:only xmlns="..."></svg>'') default_options))
         True default_options
       = js ''<svg client:only xmlns="..."></svg>''
   \<and> \<not> includes_str
         (finalizeAfterOptimization
           (preparedSvg
             (prepareForOptimization (js ''<svg client:only xmlns="..."></svg>'')
               default_options))
           True default_options)
         (js ''__BOOLEAN__'')\<close>
  by (simp only: prepareForOptimization_def finalizeAfterOptimization_def detect_client_only
        forward_client_only reverse_client_only no_sentinel_client_only if_True
        Prepared.select_convs simp_thms)

subsection \<open>Two spread attributes\<close>

lemma detect_spreads: "isJsxSvg (js ''<svg {...a} {...b}></svg>'')"
  by (simp only: eval_rules cong: eval_congs)

lemma spreads_numbered:
  \<open>replaceJsxSpreads (js ''<svg {...a} {...b}></svg>'')
     = js ''<svg data-spread-0="__JSX_BASE64__YQ==__" data-spread-1="__JSX_BASE64__Yg==__"></svg>''\<close>
  by (simp only: eval_rules cong: eval_congs)

lemma placeholders_a_b:
  "encodeJsx (js ''a'') = js ''__JSX_BASE64__YQ==__''"
  "encodeJsx (js ''b'') = js ''__JSX_BASE64__Yg==__''"
  by (simp_all only: eval_rules cong: eval_congs)

lemma forward_spreads:
  \<open>convertJsxToSvg (js ''<svg {...a} {...b}></svg>'') default_options
     = js ''<svg data-better-svg-temp-data-spread-0="__JSX_BASE64__YQ==__" data-better-svg-temp-data-spread-1="__JSX_BASE64__Yg==__"></svg>''\<close>
  by (simp only: eval_rules cong: eval_congs)

lemma reverse_spreads:
  \<open>convertSvgToJsx
       (js ''<svg data-better-svg-temp-data-spread-0="__JSX_BASE64__YQ==__" data-better-svg-temp-data-spread-1="__JSX_BASE64__Yg==__"></svg>'')
       default_options
     = js ''<svg {...a} {...b}></svg>''\<close>
  by (simp only: eval_rules cong: eval_congs)

text \<open>
  C7.  In \<open><svg {...a} {...b}></svg>\<close> the spread stage of the forward pass replaces the
  two spreads by \<open>data-spread-0\<close> (holding \<open>a\<close>) and \<open>data-spread-1\<close> (holding \<open>b\<close>), in this
  order.  The prepared fragment carries them under the protector's prefix, as
  \<open>data-better-svg-temp-data-spread-0\<close> and \<open>data-better-svg-temp-data-spread-1\<close>, and the
  reverse pass returns the original fragment, \<open>a\<close> before \<open>b\<close>.
\<close>

theorem C7_spreads_numbered_and_restored:
  \<open>replaceJsxSpreads (js ''<svg {...a} {...b}></svg>'')
     = js ''<svg data-spread-0="__JSX_BASE64__YQ==__" data-spread-1="__JSX_BASE64__Yg==__"></svg>''
   \<and> encodeJsx (js ''a'') = js ''__JSX_BASE64__YQ==__''
   \<and> encodeJsx (js ''b'') = js ''__JSX_BASE64__Yg==__''
   \<and> prepareForOptimization (js ''<svg {...a} {...b}></svg>'') default_options
     = \<lparr>preparedSvg =
          js ''<svg data-better-svg-temp-data-spread-0="__JSX_BASE64__YQ==__" data-better-svg-temp-data-spread-1="__JSX_BASE64__Yg==__"></svg>'',
        wasJsx = True\<rparr>
   \<and> finalizeAfterOptimization
         (preparedSvg (prepareForOptimization (js ''<svg {...a} {...b}></svg>'') default_options))
         True default_options
       = js ''<svg {...a} {...b}></svg>''\<close>
  by (simp only: prepareForOptimization_def finalizeAfterOptimization_def detect_spreads
        spreads_numbered placeholders_a_b forward_spreads reverse_spreads if_True
        Prepared.select_convs simp_thms)

subsection \<open>A key after a hyphen\<close>

text \<open>
  C5 (what the code does).  \<open>\b\<close> holds between \<open>-\<close> and \<open>s\<close>, so the rule for
  \<open>strokeWidth\<close> applies to \<open>data-strokeWidth=\<close>: \<open>convertJsxToSvg\<close> rewrites it to
  \<open>data-stroke-width=\<close>.  \<open>convertSvgToJsx\<close> leaves \<open>data-strokeWidth=\<close> as it is and
  rewrites \<open>data-stroke-width=\<close> to \<open>data-strokeWidth=\<close>.  After a word character, as in
  \<open>data_strokeWidth=\<close>, the key is not rewritten.
\<close>

theorem C5_key_after_hyphen_is_rewritten:
  \<open>convertJsxToSvg (js ''<svg data-strokeWidth="test"><path /></svg>'') default_options
     = js ''<svg data-stroke-width="test"><path /></svg>''
   \<and> convertSvgToJsx (js ''<svg data-strokeWidth="test"><path /></svg>'') default_options
     = js ''<svg data-strokeWidth="test"><path /></svg>''
   \<and> convertSvgToJsx (js ''<svg data-stroke-width="test"><path /></svg>'') default_options
     = js ''<svg data-strokeWidth="test"><path /></svg>''
   \<and> convertJsxToSvg (js ''<svg data_strokeWidth="test"><path /></svg>'') default_options
     = js ''<svg data_strokeWidth="test"><path /></svg>''\<close>
  by (simp only: eval_rules cong: eval_congs)

section \<open>The placeholder can be decoded\<close>

text \<open>
  A string is well formed (\<open>String.prototype.isWellFormed\<close>) when every surrogate in it
  is part of a pair: a high surrogate directly followed by a low one.
\<close>

fun isWellFormed :: "jsstring \<Rightarrow> bool" where
  "isWellFormed [] = True"
| "isWellFormed [c] = (\<not> isHighSurrogate c \<and> \<not> isLowSurrogate c)"
| "isWellFormed (c # d # ds) =
     (if isHighSurrogate c then isLowSurrogate d \<and> isWellFormed ds
      else \<not> isLowSurrogate c \<and> isWellFormed (d # ds))"

text \<open>The characters of a base64 text: the 64 digits and the padding \<open>=\<close>.\<close>

definition isBase64Char :: "jschar \<Rightarrow> bool" where
  "isBase64Char c = (isUpper c \<or> isLower c \<or> isDigit c \<or> c = 0x2B \<or> c = 0x2F \<or> c = 0x3D)"

subsection \<open>base64\<close>

lemma uint16_small: "0 \<le> k \<Longrightarrow> k < 65536 \<Longrightarrow> uint (word_of_int k :: 16 word) = k"
  by (simp add: uint_word_of_int take_bit_eq_mod)

lemma uint8_small: "0 \<le> k \<Longrightarrow> k < 256 \<Longrightarrow> uint (word_of_int k :: 8 word) = k"
  by (simp add: uint_word_of_int take_bit_eq_mod)

lemma uint8_bound: "0 \<le> uint (b :: byte) \<and> uint b < 256"
  using uint_bounded [of b] by simp

lemma uint_b64_digit:
  assumes "0 \<le> n" "n < 64"
  shows "uint (b64_digit n) =
     (if n < 26 then 0x41 + n else if n < 52 then 0x61 + (n - 26)
      else if n < 62 then 0x30 + (n - 52) else if n = 62 then 0x2B else 0x2F)"
proof -
  consider "n < 26" | "26 \<le> n" "n < 52" | "52 \<le> n" "n < 62" | "n = 62" | "n = 63"
    using assms by linarith
  then show ?thesis
  proof cases
    case 1
    with assms uint16_small [of "0x41 + n"] show ?thesis by (simp add: b64_digit_def)
  next
    case 2
    with assms uint16_small [of "0x61 + (n - 26)"] show ?thesis by (simp add: b64_digit_def)
  next
    case 3
    with assms uint16_small [of "0x30 + (n - 52)"] show ?thesis by (simp add: b64_digit_def)
  next
    case 4
    then show ?thesis by (simp add: b64_digit_def)
  next
    case 5
    then show ?thesis by (simp add: b64_digit_def)
  qed
qed

lemma b64_value_uint:
  "uint c < 256 \<Longrightarrow> b64_value c = b64_byte_value (uint c)"
  by (simp add: b64_value_def)

lemma b64_value_digit:
  assumes "0 \<le> n" "n < 64"
  shows "b64_value (b64_digit n) = Some n"
proof -
  have "uint (b64_digit n) < 256"
    using assms unfolding uint_b64_digit [OF assms] by auto
  then have "b64_value (b64_digit n) = b64_byte_value (uint (b64_digit n))"
    by (rule b64_value_uint)
  then show ?thesis
    using assms unfolding uint_b64_digit [OF assms] b64_byte_value_def by auto
qed

lemma b64_digit_not_pad:
  assumes "0 \<le> n" "n < 64"
  shows "b64_digit n \<noteq> 0x3D"
proof
  assume "b64_digit n = 0x3D"
  then have "uint (b64_digit n) = 0x3D" by simp
  then show False using assms unfolding uint_b64_digit [OF assms] by (auto split: if_splits)
qed


lemma base64_decode_group:
  assumes "0 \<le> a" "a < 64" "0 \<le> b" "b < 64" "0 \<le> c" "c < 64" "0 \<le> d" "d < 64"
  shows "base64_decode (b64_digit a # b64_digit b # b64_digit c # b64_digit d # rest)
         = [word_of_int (a * 4 + b div 16), word_of_int ((b mod 16) * 16 + c div 4),
            word_of_int ((c mod 4) * 64 + d)] @ base64_decode rest"
  using assms by (simp add: base64_decode_def b64_value_digit b64_digit_not_pad List.map_filter_simps)

lemma byte_eqI: "uint (x :: byte) = k \<Longrightarrow> word_of_int k = x"
  by auto

lemma sextet_bounds:
  fixes x :: int
  assumes "0 \<le> x" "x < 256"
  shows "0 \<le> x div 4" "x div 4 < 64" "0 \<le> x mod 4 * 16" "x mod 4 * 16 < 64"
    "0 \<le> x mod 64" "x mod 64 < 64" "0 \<le> x mod 16 * 4" "x mod 16 * 4 < 64"
    "0 \<le> x div 16" "x div 16 < 16" "0 \<le> x div 64" "x div 64 < 4"
    "0 \<le> x mod 4" "x mod 4 < 4" "0 \<le> x mod 16" "x mod 16 < 16"
  using assms by auto

lemma join_16:
  fixes m y :: int
  assumes "0 \<le> y" "y < 16" "0 \<le> m" "m < 4"
  shows "(m * 16 + y) div 16 = m" "(m * 16 + y) mod 16 = y" "0 \<le> m * 16 + y" "m * 16 + y < 64"
  using assms by auto

lemma join_4:
  fixes m y :: int
  assumes "0 \<le> y" "y < 4" "0 \<le> m" "m < 16"
  shows "(m * 4 + y) div 4 = m" "(m * 4 + y) mod 4 = y" "0 \<le> m * 4 + y" "m * 4 + y < 64"
  using assms by auto

lemma second_sextet:
  fixes x y :: int
  assumes "0 \<le> x" "x < 256" "0 \<le> y" "y < 256"
  shows "(x mod 4 * 16 + y div 16) div 16 = x mod 4" "(x mod 4 * 16 + y div 16) mod 16 = y div 16"
    "0 \<le> x mod 4 * 16 + y div 16" "x mod 4 * 16 + y div 16 < 64"
  using join_16 [of "y div 16" "x mod 4"] sextet_bounds [OF assms(1,2)] sextet_bounds [OF assms(3,4)]
  by blast+

lemma third_sextet:
  fixes y z :: int
  assumes "0 \<le> y" "y < 256" "0 \<le> z" "z < 256"
  shows "(y mod 16 * 4 + z div 64) div 4 = y mod 16" "(y mod 16 * 4 + z div 64) mod 4 = z div 64"
    "0 \<le> y mod 16 * 4 + z div 64" "y mod 16 * 4 + z div 64 < 64"
  using join_4 [of "z div 64" "y mod 16"] sextet_bounds [OF assms(1,2)] sextet_bounds [OF assms(3,4)]
  by blast+

lemma base64_decode_encode: "base64_decode (base64_encode bs) = bs"
proof (induction bs rule: base64_encode.induct)
  case 1
  show ?case by (simp add: base64_decode_def List.map_filter_simps)
next
  case (2 a)
  have A: "0 \<le> uint a" "uint a < 256" using uint8_bound [of a] by auto
  note sa = sextet_bounds [OF A]
  have "base64_decode (base64_encode [a]) = [word_of_int (uint a div 4 * 4 + uint a mod 4 * 16 div 16)]"
    using sa(1-4)
    by (simp add: base64_decode_def b64_value_digit b64_digit_not_pad List.map_filter_simps
          del: of_int_add of_int_mult)
  also have "word_of_int (uint a div 4 * 4 + uint a mod 4 * 16 div 16) = a"
    by (rule byte_eqI) simp
  finally show ?case .
next
  case (3 a b)
  have A: "0 \<le> uint a" "uint a < 256" using uint8_bound [of a] by auto
  have B: "0 \<le> uint b" "uint b < 256" using uint8_bound [of b] by auto
  note sa = sextet_bounds [OF A] and sb = sextet_bounds [OF B] and s2 = second_sextet [OF A B]
  have "base64_decode (base64_encode [a, b]) =
      [word_of_int (uint a div 4 * 4 + (uint a mod 4 * 16 + uint b div 16) div 16),
       word_of_int ((uint a mod 4 * 16 + uint b div 16) mod 16 * 16 + uint b mod 16 * 4 div 4)]"
    using sa(1,2) s2(3,4) sb(7,8)
    by (simp add: base64_decode_def b64_value_digit b64_digit_not_pad List.map_filter_simps
          del: of_int_add of_int_mult)
  also have "word_of_int (uint a div 4 * 4 + (uint a mod 4 * 16 + uint b div 16) div 16) = a"
    by (rule byte_eqI) (unfold s2, simp)
  also have "word_of_int ((uint a mod 4 * 16 + uint b div 16) mod 16 * 16 + uint b mod 16 * 4 div 4) = b"
    by (rule byte_eqI) (unfold s2, simp)
  finally show ?case .
next
  case (4 a b c bs)
  have A: "0 \<le> uint a" "uint a < 256" using uint8_bound [of a] by auto
  have B: "0 \<le> uint b" "uint b < 256" using uint8_bound [of b] by auto
  have C: "0 \<le> uint c" "uint c < 256" using uint8_bound [of c] by auto
  note sa = sextet_bounds [OF A] and sc = sextet_bounds [OF C]
    and s2 = second_sextet [OF A B] and s3 = third_sextet [OF B C]
  have "base64_decode (base64_encode (a # b # c # bs)) =
      [word_of_int (uint a div 4 * 4 + (uint a mod 4 * 16 + uint b div 16) div 16),
       word_of_int ((uint a mod 4 * 16 + uint b div 16) mod 16 * 16
          + (uint b mod 16 * 4 + uint c div 64) div 4),
       word_of_int ((uint b mod 16 * 4 + uint c div 64) mod 4 * 64 + uint c mod 64)]
      @ base64_decode (base64_encode bs)"
    using base64_decode_group [OF sa(1,2) s2(3,4) s3(3,4) sc(5,6)] by simp
  also have "word_of_int (uint a div 4 * 4 + (uint a mod 4 * 16 + uint b div 16) div 16) = a"
    by (rule byte_eqI) (unfold s2, simp)
  also have "word_of_int ((uint a mod 4 * 16 + uint b div 16) mod 16 * 16
          + (uint b mod 16 * 4 + uint c div 64) div 4) = b"
    by (rule byte_eqI) (unfold s2 s3, simp)
  also have "word_of_int ((uint b mod 16 * 4 + uint c div 64) mod 4 * 64 + uint c mod 64) = c"
    by (rule byte_eqI) (unfold s3, simp)
  finally show ?case using "4.IH" by simp
qed

lemma isBase64Char_uint:
  "isBase64Char c =
     (0x41 \<le> uint c \<and> uint c \<le> 0x5A \<or> 0x61 \<le> uint c \<and> uint c \<le> 0x7A
      \<or> 0x30 \<le> uint c \<and> uint c \<le> 0x39 \<or> uint c = 0x2B \<or> uint c = 0x2F \<or> uint c = 0x3D)"
  by (simp add: isBase64Char_def isUpper_def isLower_def isDigit_def word_le_def word_uint_eq_iff)

lemma isBase64Char_digit:
  assumes "0 \<le> n" "n < 64"
  shows "isBase64Char (b64_digit n)"
  using assms unfolding isBase64Char_uint uint_b64_digit [OF assms] by auto

lemma isBase64Char_pad: "isBase64Char 0x3D"
  by (simp add: isBase64Char_def)

lemma base64_encode_chars: "list_all isBase64Char (base64_encode bs)"
proof (induction bs rule: base64_encode.induct)
  case 1
  show ?case by simp
next
  case (2 a)
  have A: "0 \<le> uint a" "uint a < 256" using uint8_bound [of a] by auto
  note sa = sextet_bounds [OF A]
  show ?case using sa(1-4) by (simp add: isBase64Char_digit isBase64Char_pad)
next
  case (3 a b)
  have A: "0 \<le> uint a" "uint a < 256" using uint8_bound [of a] by auto
  have B: "0 \<le> uint b" "uint b < 256" using uint8_bound [of b] by auto
  note sa = sextet_bounds [OF A] and sb = sextet_bounds [OF B] and s2 = second_sextet [OF A B]
  show ?case using sa(1,2) s2(3,4) sb(7,8) by (simp add: isBase64Char_digit isBase64Char_pad)
next
  case (4 a b c bs)
  have A: "0 \<le> uint a" "uint a < 256" using uint8_bound [of a] by auto
  have B: "0 \<le> uint b" "uint b < 256" using uint8_bound [of b] by auto
  have C: "0 \<le> uint c" "uint c < 256" using uint8_bound [of c] by auto
  note sa = sextet_bounds [OF A] and sc = sextet_bounds [OF C]
    and s2 = second_sextet [OF A B] and s3 = third_sextet [OF B C]
  show ?case using sa(1,2) s2(3,4) s3(3,4) sc(5,6) "4.IH" by (simp add: isBase64Char_digit)
qed

subsection \<open>UTF-8\<close>

lemma decode_1:
  "uint b0 < 0x80 \<Longrightarrow> utf8_decode (b0 # rest) = word_of_int (uint b0) # utf8_decode rest"
  by (simp add: Let_def)

lemma decode_2:
  assumes "0xC2 \<le> uint b0" "uint b0 \<le> 0xDF" "0x80 \<le> uint b1" "uint b1 \<le> 0xBF"
  shows "utf8_decode (b0 # b1 # rest)
         = word_of_int ((uint b0 - 0xC0) * 64 + (uint b1 - 0x80)) # utf8_decode rest"
  using assms by (simp add: Let_def isCont_def del: of_int_add of_int_mult of_int_diff)

lemma decode_3:
  assumes "0xE0 \<le> uint b0" "uint b0 \<le> 0xEF"
    and "(if uint b0 = 0xE0 then 0xA0 else 0x80) \<le> uint b1"
    and "uint b1 \<le> (if uint b0 = 0xED then 0x9F else 0xBF)"
    and "0x80 \<le> uint b2" "uint b2 \<le> 0xBF"
  shows "utf8_decode (b0 # b1 # b2 # rest)
         = word_of_int ((uint b0 - 0xE0) * 4096 + (uint b1 - 0x80) * 64 + (uint b2 - 0x80))
             # utf8_decode rest"
  using assms by (simp add: Let_def isCont_def del: of_int_add of_int_mult of_int_diff)

lemma decode_4:
  assumes "0xF0 \<le> uint b0" "uint b0 \<le> 0xF4"
    and "(if uint b0 = 0xF0 then 0x90 else 0x80) \<le> uint b1"
    and "uint b1 \<le> (if uint b0 = 0xF4 then 0x8F else 0xBF)"
    and "0x80 \<le> uint b2" "uint b2 \<le> 0xBF" "0x80 \<le> uint b3" "uint b3 \<le> 0xBF"
  shows "utf8_decode (b0 # b1 # b2 # b3 # rest)
         = code_units ((uint b0 - 0xF0) * 262144 + (uint b1 - 0x80) * 4096
             + (uint b2 - 0x80) * 64 + (uint b3 - 0x80)) @ utf8_decode rest"
  using assms by (simp add: Let_def isCont_def del: of_int_add of_int_mult of_int_diff)

lemma two_arith: fixes u :: int assumes "0x80 \<le> u" "u < 0x800"
  shows "0xC2 \<le> 0xC0 + u div 64" "0xC0 + u div 64 \<le> 0xDF" "0x80 \<le> 0x80 + u mod 64" "0x80 + u mod 64 \<le> 0xBF"
   "(0xC0 + u div 64 - 0xC0) * 64 + (0x80 + u mod 64 - 0x80) = u"
  using assms by auto

lemma digits3: fixes u :: int 
  obtains A B C where "u = 4096 * A + 64 * B + C" "0 \<le> B" "B < 64" "0 \<le> C" "C < 64"
    "u div 4096 = A" "(u div 64) mod 64 = B" "u mod 64 = C"
proof -
  define q r A B where "q = u div 64" and "r = u mod 64" and "A = q div 64" and "B = q mod 64"
  have 1: "u = 64 * q + r" "0 \<le> r" "r < 64" by (simp_all add: q_def r_def)
  have 2: "q = 64 * A + B" "0 \<le> B" "B < 64" by (simp_all add: A_def B_def)
  have 3: "u div 4096 = A" by (simp add: A_def q_def zdiv_zmult2_eq [symmetric])
  have 4: "(u div 64) mod 64 = B" "u mod 64 = r" unfolding B_def q_def r_def by (rule refl)+
  from 1 2 have "u = 4096 * A + 64 * B + r" by linarith
  then show ?thesis by (rule that [OF _ 2(2,3) 1(2,3) 3 4])
qed

lemma three_arith: fixes u :: int assumes "0x800 \<le> u" "u < 0x10000"
  shows "0xE0 \<le> 0xE0 + u div 4096" "0xE0 + u div 4096 \<le> 0xEF" 
   "0x80 \<le> 0x80 + (u div 64) mod 64" "0x80 + (u div 64) mod 64 \<le> 0xBF"
   "0x80 \<le> 0x80 + u mod 64" "0x80 + u mod 64 \<le> 0xBF"
   "0xE0 + u div 4096 = 0xE0 \<Longrightarrow> 0xA0 \<le> 0x80 + (u div 64) mod 64"
   "u < 0xD800 \<or> 0xE000 \<le> u \<Longrightarrow> 0xE0 + u div 4096 = 0xED \<Longrightarrow> 0x80 + (u div 64) mod 64 \<le> 0x9F"
   "(0xE0 + u div 4096 - 0xE0) * 4096 + (0x80 + (u div 64) mod 64 - 0x80) * 64 + (0x80 + u mod 64 - 0x80) = u"
proof -
  obtain A B C where d: "u = 4096 * A + 64 * B + C" "0 \<le> B" "B < 64" "0 \<le> C" "C < 64"
    and e: "u div 4096 = A" "(u div 64) mod 64 = B" "u mod 64 = C" by (rule digits3)
  show "0xE0 \<le> 0xE0 + u div 4096" unfolding e using d assms by linarith
  show "0xE0 + u div 4096 \<le> 0xEF" unfolding e using d assms by linarith
  show "0x80 \<le> 0x80 + (u div 64) mod 64" "0x80 + (u div 64) mod 64 \<le> 0xBF"
   "0x80 \<le> 0x80 + u mod 64" "0x80 + u mod 64 \<le> 0xBF" by simp_all
  show "0xE0 + u div 4096 = 0xE0 \<Longrightarrow> 0xA0 \<le> 0x80 + (u div 64) mod 64"
    unfolding e using d assms by linarith
  show "u < 0xD800 \<or> 0xE000 \<le> u \<Longrightarrow> 0xE0 + u div 4096 = 0xED \<Longrightarrow> 0x80 + (u div 64) mod 64 \<le> 0x9F"
    unfolding e using d(2-5) unfolding d(1) by linarith
  show "(0xE0 + u div 4096 - 0xE0) * 4096 + (0x80 + (u div 64) mod 64 - 0x80) * 64 + (0x80 + u mod 64 - 0x80) = u"
    unfolding e using d(1) by simp
qed

lemma digits4: fixes u :: int 
  obtains A B C D where "u = 262144 * A + 4096 * B + 64 * C + D" "0 \<le> B" "B < 64" "0 \<le> C" "C < 64"
    "0 \<le> D" "D < 64"
    "u div 262144 = A" "(u div 4096) mod 64 = B" "(u div 64) mod 64 = C" "u mod 64 = D"
proof -
  define q r p C A B where "q = u div 64" and "r = u mod 64" and "p = q div 64" and "C = q mod 64"
    and "A = p div 64" and "B = p mod 64"
  have 1: "u = 64 * q + r" "0 \<le> r" "r < 64" by (simp_all add: q_def r_def)
  have 2: "q = 64 * p + C" "0 \<le> C" "C < 64" by (simp_all add: p_def C_def)
  have 3: "p = 64 * A + B" "0 \<le> B" "B < 64" by (simp_all add: A_def B_def)
  have 4: "u div 4096 = p" by (simp add: p_def q_def zdiv_zmult2_eq [symmetric])
  have 5: "u div 262144 = A" by (simp add: A_def 4 [symmetric] zdiv_zmult2_eq [symmetric])
  have 6: "(u div 4096) mod 64 = B" unfolding 4 B_def by (rule refl)
  have 7: "(u div 64) mod 64 = C" "u mod 64 = r" unfolding C_def q_def r_def by (rule refl)+
  from 1 2 3 have "u = 262144 * A + 4096 * B + 64 * C + r" by linarith
  then show ?thesis by (rule that [OF _ 3(2,3) 2(2,3) 1(2,3) 5 6 7])
qed

lemma four_arith: fixes u :: int assumes "0x10000 \<le> u" "u < 0x110000"
  shows "0xF0 \<le> 0xF0 + u div 262144" "0xF0 + u div 262144 \<le> 0xF4" 
   "0x80 \<le> 0x80 + (u div 4096) mod 64" "0x80 + (u div 4096) mod 64 \<le> 0xBF"
   "0x80 \<le> 0x80 + (u div 64) mod 64" "0x80 + (u div 64) mod 64 \<le> 0xBF"
   "0x80 \<le> 0x80 + u mod 64" "0x80 + u mod 64 \<le> 0xBF"
   "0xF0 + u div 262144 = 0xF0 \<Longrightarrow> 0x90 \<le> 0x80 + (u div 4096) mod 64"
   "0xF0 + u div 262144 = 0xF4 \<Longrightarrow> 0x80 + (u div 4096) mod 64 \<le> 0x8F"
   "(0xF0 + u div 262144 - 0xF0) * 262144 + (0x80 + (u div 4096) mod 64 - 0x80) * 4096 + (0x80 + (u div 64) mod 64 - 0x80) * 64 + (0x80 + u mod 64 - 0x80) = u"
proof -
  obtain A B C D where d: "u = 262144 * A + 4096 * B + 64 * C + D" "0 \<le> B" "B < 64" "0 \<le> C" "C < 64"
    "0 \<le> D" "D < 64"
    and e: "u div 262144 = A" "(u div 4096) mod 64 = B" "(u div 64) mod 64 = C" "u mod 64 = D" by (rule digits4)
  show "0xF0 \<le> 0xF0 + u div 262144" unfolding e using d assms by linarith
  show "0xF0 + u div 262144 \<le> 0xF4" unfolding e using d assms by linarith
  show "0x80 \<le> 0x80 + (u div 4096) mod 64" "0x80 + (u div 4096) mod 64 \<le> 0xBF"
   "0x80 \<le> 0x80 + (u div 64) mod 64" "0x80 + (u div 64) mod 64 \<le> 0xBF"
   "0x80 \<le> 0x80 + u mod 64" "0x80 + u mod 64 \<le> 0xBF" by simp_all
  show "0xF0 + u div 262144 = 0xF0 \<Longrightarrow> 0x90 \<le> 0x80 + (u div 4096) mod 64"
    unfolding e using d assms by linarith
  show "0xF0 + u div 262144 = 0xF4 \<Longrightarrow> 0x80 + (u div 4096) mod 64 \<le> 0x8F"
    unfolding e using d assms by linarith
  show "(0xF0 + u div 262144 - 0xF0) * 262144 + (0x80 + (u div 4096) mod 64 - 0x80) * 4096 + (0x80 + (u div 64) mod 64 - 0x80) * 64 + (0x80 + u mod 64 - 0x80) = u"
    unfolding e using d(1) by simp
qed

lemma decode_scalar:
  assumes "0 \<le> u" "u < 0x110000" "u < 0xD800 \<or> 0xE000 \<le> u"
  shows "utf8_decode (utf8_of_code_point u @ rest) = code_units u @ utf8_decode rest"
proof -
  consider (one) "u < 0x80" | (two) "0x80 \<le> u" "u < 0x800" | (three) "0x800 \<le> u" "u < 0x10000"
    | (four) "0x10000 \<le> u"
    by linarith
  then show ?thesis
  proof cases
    case one
    let ?B0 = "word_of_int u :: byte"
    have b0: "uint ?B0 = u" by (rule uint8_small) (use assms one in linarith)+
    have enc: "utf8_of_code_point u = [?B0]" using one by (simp add: utf8_of_code_point_def)
    have "utf8_decode (?B0 # rest) = word_of_int (uint ?B0) # utf8_decode rest"
      by (rule decode_1) (simp only: b0 one)
    then show ?thesis using one by (simp only: enc b0 code_units_def append.simps if_True) simp
  next
    case two
    note ar = two_arith [OF two]
    let ?B0 = "word_of_int (0xC0 + u div 64) :: byte"
    let ?B1 = "word_of_int (0x80 + u mod 64) :: byte"
    have b0: "uint ?B0 = 0xC0 + u div 64" by (rule uint8_small) (use ar in linarith)+
    have b1: "uint ?B1 = 0x80 + u mod 64" by (rule uint8_small) (use ar in linarith)+
    have enc: "utf8_of_code_point u = [?B0, ?B1]"
      using two by (simp add: utf8_of_code_point_def del: of_int_add)
    have "utf8_decode (?B0 # ?B1 # rest)
        = word_of_int ((uint ?B0 - 0xC0) * 64 + (uint ?B1 - 0x80)) # utf8_decode rest"
      by (rule decode_2) (simp_all only: b0 b1 ar)
    then have "utf8_decode (?B0 # ?B1 # rest) = word_of_int u # utf8_decode rest"
      by (simp only: b0 b1 ar)
    then show ?thesis using two by (simp only: enc code_units_def append.simps) simp
  next
    case three
    note ar = three_arith [OF three]
    let ?B0 = "word_of_int (0xE0 + u div 4096) :: byte"
    let ?B1 = "word_of_int (0x80 + (u div 64) mod 64) :: byte"
    let ?B2 = "word_of_int (0x80 + u mod 64) :: byte"
    have b0: "uint ?B0 = 0xE0 + u div 4096" by (rule uint8_small) (use ar in linarith)+
    have b1: "uint ?B1 = 0x80 + (u div 64) mod 64" by (rule uint8_small) (use ar in linarith)+
    have b2: "uint ?B2 = 0x80 + u mod 64" by (rule uint8_small) (use ar in linarith)+
    have enc: "utf8_of_code_point u = [?B0, ?B1, ?B2]"
      using three by (simp add: utf8_of_code_point_def del: of_int_add)
    have lo: "(if uint ?B0 = 0xE0 then 0xA0 else 0x80) \<le> uint ?B1"
      unfolding b0 b1 using ar(3) ar(7) by (simp split: if_splits)
    have hi: "uint ?B1 \<le> (if uint ?B0 = 0xED then 0x9F else 0xBF)"
      unfolding b0 b1 using ar(4) ar(8) [OF assms(3)] by (simp split: if_splits)
    have "utf8_decode (?B0 # ?B1 # ?B2 # rest)
        = word_of_int ((uint ?B0 - 0xE0) * 4096 + (uint ?B1 - 0x80) * 64 + (uint ?B2 - 0x80))
            # utf8_decode rest"
      by (rule decode_3 [OF _ _ lo hi]) (simp_all only: b0 b2 ar)
    then have "utf8_decode (?B0 # ?B1 # ?B2 # rest) = word_of_int u # utf8_decode rest"
      by (simp only: b0 b1 b2 ar)
    then show ?thesis using three by (simp only: enc code_units_def append.simps) simp
  next
    case four
    note ar = four_arith [OF four assms(2)]
    let ?B0 = "word_of_int (0xF0 + u div 262144) :: byte"
    let ?B1 = "word_of_int (0x80 + (u div 4096) mod 64) :: byte"
    let ?B2 = "word_of_int (0x80 + (u div 64) mod 64) :: byte"
    let ?B3 = "word_of_int (0x80 + u mod 64) :: byte"
    have b0: "uint ?B0 = 0xF0 + u div 262144" by (rule uint8_small) (use ar in linarith)+
    have b1: "uint ?B1 = 0x80 + (u div 4096) mod 64" by (rule uint8_small) (use ar in linarith)+
    have b2: "uint ?B2 = 0x80 + (u div 64) mod 64" by (rule uint8_small) (use ar in linarith)+
    have b3: "uint ?B3 = 0x80 + u mod 64" by (rule uint8_small) (use ar in linarith)+
    have enc: "utf8_of_code_point u = [?B0, ?B1, ?B2, ?B3]"
      using four by (simp add: utf8_of_code_point_def del: of_int_add)
    have lo: "(if uint ?B0 = 0xF0 then 0x90 else 0x80) \<le> uint ?B1"
      unfolding b0 b1 using ar(3) ar(9) by (simp split: if_splits)
    have hi: "uint ?B1 \<le> (if uint ?B0 = 0xF4 then 0x8F else 0xBF)"
      unfolding b0 b1 using ar(4) ar(10) by (simp split: if_splits)
    have "utf8_decode (?B0 # ?B1 # ?B2 # ?B3 # rest)
        = code_units ((uint ?B0 - 0xF0) * 262144 + (uint ?B1 - 0x80) * 4096
            + (uint ?B2 - 0x80) * 64 + (uint ?B3 - 0x80)) @ utf8_decode rest"
      by (rule decode_4 [OF _ _ lo hi]) (simp_all only: b0 b2 b3 ar)
    then have "utf8_decode (?B0 # ?B1 # ?B2 # ?B3 # rest) = code_units u @ utf8_decode rest"
      by (simp only: b0 b1 b2 b3 ar)
    then show ?thesis by (simp only: enc append.simps)
  qed
qed

lemma surrogate_uint:
  "isHighSurrogate c = (0xD800 \<le> uint c \<and> uint c \<le> 0xDBFF)"
  "isLowSurrogate c = (0xDC00 \<le> uint c \<and> uint c \<le> 0xDFFF)"
  by (simp_all add: isHighSurrogate_def isLowSurrogate_def word_le_def)

lemma uint16_bound: "0 \<le> uint (c :: jschar) \<and> uint c < 0x10000"
  using uint_bounded [of c] by simp

lemma code_units_single: "code_units (uint (c :: jschar)) = [c]"
  using uint16_bound [of c] by (simp add: code_units_def)

lemma join_1024:
  fixes a b :: int
  assumes "0 \<le> b" "b < 1024"
  shows "(a * 1024 + b) div 1024 = a" "(a * 1024 + b) mod 1024 = b"
  using assms by auto

lemma pair_arith:
  fixes h l :: int
  assumes "0xD800 \<le> h" "h \<le> 0xDBFF" "0xDC00 \<le> l" "l \<le> 0xDFFF"
  shows "0x10000 \<le> 0x10000 + (h - 0xD800) * 1024 + (l - 0xDC00)"
    "0x10000 + (h - 0xD800) * 1024 + (l - 0xDC00) < 0x110000"
    "(0x10000 + (h - 0xD800) * 1024 + (l - 0xDC00) - 0x10000) div 1024 = h - 0xD800"
    "(0x10000 + (h - 0xD800) * 1024 + (l - 0xDC00) - 0x10000) mod 1024 = l - 0xDC00"
proof -
  have e: "0x10000 + (h - 0xD800) * 1024 + (l - 0xDC00) - 0x10000 = (h - 0xD800) * 1024 + (l - 0xDC00)"
    by linarith
  have b: "0 \<le> l - 0xDC00" "l - 0xDC00 < 1024" using assms by simp_all
  show "0x10000 \<le> 0x10000 + (h - 0xD800) * 1024 + (l - 0xDC00)"
    using assms by auto
  show "0x10000 + (h - 0xD800) * 1024 + (l - 0xDC00) < 0x110000"
    using assms by auto
  show "(0x10000 + (h - 0xD800) * 1024 + (l - 0xDC00) - 0x10000) div 1024 = h - 0xD800"
    "(0x10000 + (h - 0xD800) * 1024 + (l - 0xDC00) - 0x10000) mod 1024 = l - 0xDC00"
    unfolding e by (rule join_1024 [OF b])+
qed

lemma code_units_pair:
  assumes "isHighSurrogate c" "isLowSurrogate d"
  shows "code_units (0x10000 + (uint c - 0xD800) * 1024 + (uint d - 0xDC00)) = [c, d]"
proof -
  from assms have r: "0xD800 \<le> uint c" "uint c \<le> 0xDBFF" "0xDC00 \<le> uint d" "uint d \<le> 0xDFFF"
    by (simp_all add: surrogate_uint)
  note ar = pair_arith [OF r]
  have "code_units (0x10000 + (uint c - 0xD800) * 1024 + (uint d - 0xDC00))
      = [word_of_int (0xD800 + (uint c - 0xD800)), word_of_int (0xDC00 + (uint d - 0xDC00))]"
    unfolding code_units_def ar(3,4) using ar(1) by (simp del: of_int_add of_int_diff)
  then show ?thesis by simp
qed

lemma utf8_decode_encode: "isWellFormed s \<Longrightarrow> utf8_decode (utf8_encode s) = s"
proof (induction s rule: utf8_encode.induct)
  case 1
  show ?case by simp
next
  case (2 c)
  then have ns: "uint c < 0xD800 \<or> 0xE000 \<le> uint c"
    by (auto simp: surrogate_uint)
  from 2 have "utf8_encode [c] = utf8_of_code_point (uint c)" by simp
  moreover have "utf8_decode (utf8_of_code_point (uint c) @ []) = code_units (uint c) @ utf8_decode []"
    using uint16_bound [of c] ns by (intro decode_scalar) auto
  ultimately show ?case by (simp add: code_units_single)
next
  case (3 c d ds)
  show ?case
  proof (cases "isHighSurrogate c")
    case True
    with "3.prems" have low: "isLowSurrogate d" and wf: "isWellFormed ds" by simp_all
    let ?u = "0x10000 + (uint c - 0xD800) * 1024 + (uint d - 0xDC00)"
    from True low have r: "0xD800 \<le> uint c" "uint c \<le> 0xDBFF" "0xDC00 \<le> uint d" "uint d \<le> 0xDFFF"
      by (simp_all add: surrogate_uint)
    note ar = pair_arith [OF r]
    have "utf8_decode (utf8_of_code_point ?u @ utf8_encode ds) = code_units ?u @ utf8_decode (utf8_encode ds)"
      using ar(1,2) by (intro decode_scalar) linarith+
    moreover have "utf8_encode (c # d # ds) = utf8_of_code_point ?u @ utf8_encode ds"
      using True low by simp
    ultimately show ?thesis
      using "3.IH"(1) [OF True low wf] code_units_pair [OF True low] by simp
  next
    case False
    with "3.prems" have nl: "\<not> isLowSurrogate c" and wf: "isWellFormed (d # ds)" by simp_all
    from False nl have ns: "uint c < 0xD800 \<or> 0xE000 \<le> uint c"
      by (auto simp: surrogate_uint)
    have "utf8_decode (utf8_of_code_point (uint c) @ utf8_encode (d # ds))
        = code_units (uint c) @ utf8_decode (utf8_encode (d # ds))"
      using uint16_bound [of c] ns by (intro decode_scalar) auto
    moreover have "utf8_encode (c # d # ds) = utf8_of_code_point (uint c) @ utf8_encode (d # ds)"
      using False nl by simp
    ultimately show ?thesis
      using "3.IH"(4) [OF False nl] wf by (simp add: code_units_single)
  qed
qed

subsection \<open>encodeJsx and decodeJsx\<close>

lemma stripPrefix_append: "stripPrefix p (p @ r) = Some r"
  by (induction p) auto

lemma startsWith_append: "startsWith (p @ r) p"
  by (induction p) auto

lemma decodeJsx_encodeJsx:
  "decodeJsx (encodeJsx x) = Some (utf8_decode (utf8_encode x))"
proof -
  have e: "endsWith (encodeJsx x) BASE64_SUFFIX"
    by (simp add: endsWith_def encodeJsx_def startsWith_append)
  have b: "butlast (butlast (base64_encode (utf8_encode x) @ BASE64_SUFFIX))
             = base64_encode (utf8_encode x)"
    by (simp add: BASE64_SUFFIX_def js_def butlast_append)
  show ?thesis
    unfolding decodeJsx_list using e
    by (simp add: encodeJsx_def stripPrefix_append b base64_decode_encode)
qed

text \<open>
  C9 (as the code has it).  For every well-formed string \<open>x\<close>, the empty string included,
  \<open>decodeJsx (encodeJsx x)\<close> is \<open>x\<close>.  For every string \<open>x\<close> the placeholder is
  \<open>__JSX_BASE64__\<close>, then the base64 text of the UTF-8 bytes of \<open>x\<close>, which holds only
  base64 digits and padding, then \<open>__\<close>.
\<close>

theorem C9_placeholder_decodes_to_expression:
  "(isWellFormed x \<longrightarrow> decodeJsx (encodeJsx x) = Some x)
   \<and> encodeJsx x = js ''__JSX_BASE64__'' @ base64_encode (utf8_encode x) @ js ''__''
   \<and> list_all isBase64Char (base64_encode (utf8_encode x))"
proof (intro conjI impI)
  assume "isWellFormed x"
  then show "decodeJsx (encodeJsx x) = Some x"
    by (simp add: decodeJsx_encodeJsx utf8_decode_encode)
next
  show "encodeJsx x = js ''__JSX_BASE64__'' @ base64_encode (utf8_encode x) @ js ''__''"
    by (simp add: encodeJsx_def BASE64_PREFIX_def BASE64_SUFFIX_def)
next
  show "list_all isBase64Char (base64_encode (utf8_encode x))"
    by (rule base64_encode_chars)
qed

theorem C9_placeholder_witness:
  "isWellFormed [0x7B, 0x3C0, 0xD83D, 0xDE00, 0x7D]
   \<and> decodeJsx (encodeJsx [0x7B, 0x3C0, 0xD83D, 0xDE00, 0x7D])
       = Some [0x7B, 0x3C0, 0xD83D, 0xDE00, 0x7D]
   \<and> decodeJsx (encodeJsx []) = Some []"
proof -
  have w: "isWellFormed [0x7B, 0x3C0, 0xD83D, 0xDE00, 0x7D]"
    by (simp add: isHighSurrogate_def isLowSurrogate_def)
  have e: "isWellFormed []" by simp
  from C9_placeholder_decodes_to_expression [of "[0x7B, 0x3C0, 0xD83D, 0xDE00, 0x7D]"] w
    C9_placeholder_decodes_to_expression [of "[]"] e
  show ?thesis by blast
qed

text \<open>
  C9 (as the specification words it, for every string) fails: a surrogate without its
  partner is encoded as U+FFFD, and that is what comes back.
\<close>

theorem C9_lone_surrogate_is_not_restored:
  "decodeJsx (encodeJsx [0xD800]) = Some [0xFFFD] \<and> decodeJsx (encodeJsx [0xD800]) \<noteq> Some [0xD800]"
proof -
  have "decodeJsx (encodeJsx [0xD800]) = Some [0xFFFD]"
    by (simp only: eval_rules cong: eval_congs)
  moreover have "[0xFFFD] \<noteq> [0xD800 :: jschar]"
    by (simp only: eval_rules cong: eval_congs)
  ultimately show ?thesis by simp
qed

section \<open>Namespaced attribute names\<close>

lemma namespaced_not_directive: "isNamespaced attr \<Longrightarrow> \<not> isDirective attr"
  by (simp add: isDirective_def)

lemma has_directive_iff: "has_directive ms = (\<exists>m \<in> set ms. \<not> isNamespaced (trim m))"
  by (induction ms) auto

lemma detect_namespaced_plain:
  \<open>\<not> isJsxSvg (js ''<svg xmlns:xlink="x" xml:space="preserve"><use xlink:href="#a"/></svg>'')\<close>
  by (simp only: eval_rules cong: eval_congs)

lemma detect_namespaced_width:
  \<open>isJsxSvg (js ''<svg xmlns:xlink="x" xml:space="preserve" width={24}><use xlink:href="#a"/></svg>'')\<close>
  by (simp only: eval_rules cong: eval_congs)

lemma forward_namespaced_on:
  \<open>convertJsxToSvg
     (js ''<svg xmlns:xlink="x" xml:space="preserve" width={24}><use xlink:href="#a"/></svg>'')
     \<lparr>useCamelCase = Some True\<rparr>
   = js ''<svg xmlns:xlink="x" xml:space="preserve" data-better-svg-temp-width="__JSX_BASE64__MjQ=__"><use xlink:href="#a"/></svg>''\<close>
  by (simp only: eval_rules cong: eval_congs)

lemma forward_namespaced_off:
  \<open>convertJsxToSvg
     (js ''<svg xmlns:xlink="x" xml:space="preserve" width={24}><use xlink:href="#a"/></svg>'')
     \<lparr>useCamelCase = Some False\<rparr>
   = js ''<svg xmlns:xlink="x" xml:space="preserve" data-better-svg-temp-width="__JSX_BASE64__MjQ=__"><use xlink:href="#a"/></svg>''\<close>
  by (simp only: eval_rules cong: eval_congs)

lemma reverse_namespaced_off:
  \<open>convertSvgToJsx
     (js ''<svg xmlns:xlink="x" xml:space="preserve" data-better-svg-temp-width="__JSX_BASE64__MjQ=__"><use xlink:href="#a"/></svg>'')
     \<lparr>useCamelCase = Some False\<rparr>
   = js ''<svg xmlns:xlink="x" xml:space="preserve" width={24}><use xlink:href="#a"/></svg>''\<close>
  by (simp only: eval_rules cong: eval_congs)

lemma reverse_namespaced_on:
  \<open>convertSvgToJsx
     (js ''<svg xmlns:xlink="x" xml:space="preserve" data-better-svg-temp-width="__JSX_BASE64__MjQ=__"><use xlink:href="#a"/></svg>'')
     \<lparr>useCamelCase = Some True\<rparr>
   = js ''<svg xmlns:xlink="x" xml:space="preserve" width={24}><use xlinkHref="#a"/></svg>''\<close>
  by (simp only: eval_rules cong: eval_congs)

lemma protect_encoded_namespaced:
  \<open>protectEncodedAttributes (js ''<use xlink:href="__JSX_BASE64__eA==__"/>'')
   = js ''<use data-better-svg-temp-xlink__COLON__href="__JSX_BASE64__eA==__"/>''\<close>
  by (simp only: eval_rules cong: eval_congs)

lemma namespaced_head:
  assumes "isNamespaced attr"
  obtains cs where "attr = ch CHR ''x'' # cs" | cs where "attr = ch CHR ''s'' # cs"
proof (cases attr)
  case Nil
  with assms show ?thesis by (simp add: isNamespaced_def js_def)
next
  case (Cons c cs)
  with assms have "c = ch CHR ''x'' \<or> c = ch CHR ''s''"
    by (auto simp: isNamespaced_def js_def split: if_splits)
  with Cons that show ?thesis by blast
qed

lemma directive_body_head:
  assumes "c = ch CHR ''x'' \<or> c = ch CHR ''s'' \<or> isSpace c"
  shows "directive_body detector_prefixes (c # r) = None"
proof -
  have "c \<noteq> ch CHR ''v''" "c \<noteq> ch CHR ''c''" "c \<noteq> ch CHR ''o''" "c \<noteq> ch CHR ''b''"
    "c \<noteq> ch CHR ''u''" "c \<noteq> ch CHR ''l''" "c \<noteq> ch CHR ''a''" "c \<noteq> ch CHR ''t''"
    "c \<noteq> ch CHR '':''" "c \<noteq> ch CHR ''@''"
    using assms by (auto simp: ch_def isSpace_def isLineTerminator_def)
  then show ?thesis by (simp add: detector_prefixes_def js_def)
qed

lemma namespaced_not_space:
  assumes "c = ch CHR ''x'' \<or> c = ch CHR ''s''"
  shows "\<not> isSpace c"
  using assms by (auto simp: ch_def isSpace_def isLineTerminator_def)

lemma m_directive_namespaced:
  assumes "isNamespaced attr"
  shows "m_directive prev (attr @ rest) = None"
    and "isSpace w \<Longrightarrow> m_directive prev (w # attr @ rest) = None"
proof -
  from assms obtain c cs where a: "attr = c # cs" and c: "c = ch CHR ''x'' \<or> c = ch CHR ''s''"
    by (rule namespaced_head) auto
  have body: "directive_body detector_prefixes (c # cs @ rest) = None"
    using c by (intro directive_body_head) auto
  show "m_directive prev (attr @ rest) = None"
    using namespaced_not_space [OF c] body by (simp add: m_directive_def a split: option.splits)
  show "m_directive prev (w # attr @ rest) = None" if "isSpace w"
  proof -
    have "directive_body detector_prefixes (w # c # cs @ rest) = None"
      using that by (intro directive_body_head) auto
    with body that show ?thesis by (simp add: m_directive_def a split: option.splits)
  qed
qed

lemma namespaced_not_temp:
  assumes "isNamespaced attr"
  shows "\<not> startsWith attr (js ''data-better-svg-temp-'')"
proof -
  from assms obtain c cs where a: "attr = c # cs" and c: "c = ch CHR ''x'' \<or> c = ch CHR ''s''"
    by (rule namespaced_head) auto
  from c show ?thesis by (auto simp: a js_def ch_def)
qed

lemma protect_namespaced_kept:
  assumes "isNamespaced attr" "notAfterSeparator prevChar \<or> \<not> isEncoded v"
  shows "protect_callback matched (attr, v) prevChar = matched"
  using assms by (auto simp: protect_callback_def isDirective_def)

lemma protect_namespaced_renamed:
  assumes "isNamespaced attr" "\<not> notAfterSeparator prevChar" "isEncoded (Some val)"
  shows "protect_callback matched (attr, Some val) prevChar
         = js ''data-better-svg-temp-'' @ safeAttr attr @ js ''='' @ [DQUOTE] @ val @ [DQUOTE]"
  using assms namespaced_not_temp [OF assms(1)] by (simp add: protect_callback_def)

lemma detect_xlink_expression: "isJsxSvg (js ''<svg><use xlink:href={x}/></svg>'')"
  by (simp only: eval_rules cong: eval_congs)

lemma forward_xlink_expression:
  \<open>convertJsxToSvg (js ''<svg><use xlink:href={x}/></svg>'') \<lparr>useCamelCase = Some True\<rparr>
   = js ''<svg><use data-better-svg-temp-xlink__COLON__href="__JSX_BASE64__eA==__"/></svg>''\<close>
  by (simp only: eval_rules cong: eval_congs)

lemma reverse_xlink_expression_off:
  \<open>convertSvgToJsx
     (js ''<svg><use data-better-svg-temp-xlink__COLON__href="__JSX_BASE64__eA==__"/></svg>'')
     \<lparr>useCamelCase = Some False\<rparr>
   = js ''<svg><use xlink:href={x}/></svg>''\<close>
  by (simp only: eval_rules cong: eval_congs)

lemma reverse_xlink_expression_on:
  \<open>convertSvgToJsx
     (js ''<svg><use data-better-svg-temp-xlink__COLON__href="__JSX_BASE64__eA==__"/></svg>'')
     \<lparr>useCamelCase = Some True\<rparr>
   = js ''<svg><use xlinkHref={x}/></svg>''\<close>
  by (simp only: eval_rules cong: eval_congs)


text \<open>
  C4 (as the code has it).  For a name \<open>attr\<close> that begins with \<open>xmlns:\<close>, \<open>xlink:\<close>,
  \<open>xml:\<close> or \<open>sketch:\<close>:
  \<^item> the detector's directive expression does not match at the name, at the start of the
    input or after a white-space character, whatever follows the name;
  \<^item> the protector does not take the name for a directive.  Its callback returns the
    attribute as it matched it when the match does not follow white space, \<open><\<close> or \<open>>\<close>,
    or when the value holds no placeholder; when the match follows such a separator (or
    starts the input) and the value holds a placeholder, the callback renames the
    attribute to \<open>data-better-svg-temp-\<close> and the sanitized name.

  The detector counts a directive match only when its trimmed text does not begin with
  one of the four prefixes.

  Two fragments, evaluated.  In
  \<open><svg xmlns:xlink="x" xml:space="preserve" width={24}><use xlink:href="#a"/></svg>\<close>
  the forward pass leaves the three namespaced attributes as they are, for both settings
  of \<open>useCamelCase\<close>; the reverse pass returns the original with \<open>useCamelCase: false\<close>
  and turns \<open>xlink:href=\<close> into \<open>xlinkHref=\<close> with \<open>useCamelCase: true\<close>; without the
  \<open>width\<close> expression the fragment is not classified as JSX.  In
  \<open><svg><use xlink:href={x}/></svg>\<close>, which is classified as JSX, the forward pass
  renames the attribute to \<open>data-better-svg-temp-xlink__COLON__href\<close>; the reverse pass
  returns \<open>xlink:href={x}\<close> with \<open>useCamelCase: false\<close> and \<open>xlinkHref={x}\<close> with
  \<open>useCamelCase: true\<close>.
\<close>

theorem C4_namespaced_names_are_not_directives:
  \<open>(isNamespaced attr \<longrightarrow>
      m_directive prev (attr @ rest) = None
      \<and> (isSpace w \<longrightarrow> m_directive prev (w # attr @ rest) = None)
      \<and> \<not> isDirective attr
      \<and> (notAfterSeparator prevChar \<or> \<not> isEncoded v \<longrightarrow>
           protect_callback matched (attr, v) prevChar = matched)
      \<and> (\<not> notAfterSeparator prevChar \<and> isEncoded (Some val) \<longrightarrow>
           protect_callback matched (attr, Some val) prevChar
           = js ''data-better-svg-temp-'' @ safeAttr attr @ js ''='' @ [DQUOTE] @ val
               @ [DQUOTE]))
   \<and> (has_directive ms \<longleftrightarrow> (\<exists>m \<in> set ms. \<not> isNamespaced (trim m)))
   \<and> \<not> isJsxSvg (js ''<svg xmlns:xlink="x" xml:space="preserve"><use xlink:href="#a"/></svg>'')
   \<and> isJsxSvg
       (js ''<svg xmlns:xlink="x" xml:space="preserve" width={24}><use xlink:href="#a"/></svg>'')
   \<and> convertJsxToSvg
       (js ''<svg xmlns:xlink="x" xml:space="preserve" width={24}><use xlink:href="#a"/></svg>'')
       \<lparr>useCamelCase = Some True\<rparr>
     = js ''<svg xmlns:xlink="x" xml:space="preserve" data-better-svg-temp-width="__JSX_BASE64__MjQ=__"><use xlink:href="#a"/></svg>''
   \<and> convertJsxToSvg
       (js ''<svg xmlns:xlink="x" xml:space="preserve" width={24}><use xlink:href="#a"/></svg>'')
       \<lparr>useCamelCase = Some False\<rparr>
     = js ''<svg xmlns:xlink="x" xml:space="preserve" data-better-svg-temp-width="__JSX_BASE64__MjQ=__"><use xlink:href="#a"/></svg>''
   \<and> convertSvgToJsx
       (js ''<svg xmlns:xlink="x" xml:space="preserve" data-better-svg-temp-width="__JSX_BASE64__MjQ=__"><use xlink:href="#a"/></svg>'')
       \<lparr>useCamelCase = Some False\<rparr>
     = js ''<svg xmlns:xlink="x" xml:space="preserve" width={24}><use xlink:href="#a"/></svg>''
   \<and> convertSvgToJsx
       (js ''<svg xmlns:xlink="x" xml:space="preserve" data-better-svg-temp-width="__JSX_BASE64__MjQ=__"><use xlink:href="#a"/></svg>'')
       \<lparr>useCamelCase = Some True\<rparr>
     = js ''<svg xmlns:xlink="x" xml:space="preserve" width={24}><use xlinkHref="#a"/></svg>''
   \<and> isJsxSvg (js ''<svg><use xlink:href={x}/></svg>'')
   \<and> convertJsxToSvg (js ''<svg><use xlink:href={x}/></svg>'') \<lparr>useCamelCase = Some True\<rparr>
     = js ''<svg><use data-better-svg-temp-xlink__COLON__href="__JSX_BASE64__eA==__"/></svg>''
   \<and> convertSvgToJsx
       (js ''<svg><use data-better-svg-temp-xlink__COLON__href="__JSX_BASE64__eA==__"/></svg>'')
       \<lparr>useCamelCase = Some False\<rparr>
     = js ''<svg><use xlink:href={x}/></svg>''
   \<and> convertSvgToJsx
       (js ''<svg><use data-better-svg-temp-xlink__COLON__href="__JSX_BASE64__eA==__"/></svg>'')
       \<lparr>useCamelCase = Some True\<rparr>
     = js ''<svg><use xlinkHref={x}/></svg>''\<close>
proof -
  have general: "isNamespaced attr \<longrightarrow>
      m_directive prev (attr @ rest) = None
      \<and> (isSpace w \<longrightarrow> m_directive prev (w # attr @ rest) = None)
      \<and> \<not> isDirective attr
      \<and> (notAfterSeparator prevChar \<or> \<not> isEncoded v \<longrightarrow>
           protect_callback matched (attr, v) prevChar = matched)
      \<and> (\<not> notAfterSeparator prevChar \<and> isEncoded (Some val) \<longrightarrow>
           protect_callback matched (attr, Some val) prevChar
           = js ''data-better-svg-temp-'' @ safeAttr attr @ js ''='' @ [DQUOTE] @ val
               @ [DQUOTE])"
    using m_directive_namespaced(1) [of attr prev rest] m_directive_namespaced(2) [of attr w prev rest]
      namespaced_not_directive [of attr] protect_namespaced_kept [of attr prevChar v matched]
      protect_namespaced_renamed [of attr prevChar val matched]
    by blast
  show ?thesis
    by (intro conjI general has_directive_iff detect_namespaced_plain detect_namespaced_width
          forward_namespaced_on forward_namespaced_off reverse_namespaced_off
          reverse_namespaced_on detect_xlink_expression forward_xlink_expression
          reverse_xlink_expression_off reverse_xlink_expression_on)
qed

theorem C4_namespaced_names_witness:
  \<open>isNamespaced (js ''xlink:href'')
   \<and> isSpace (ch CHR '' '')
   \<and> \<not> isEncoded (Some (js ''#a''))
   \<and> \<not> notAfterSeparator (Some (ch CHR '' ''))
   \<and> isEncoded (Some (js ''__JSX_BASE64__eA==__''))
   \<and> m_directive None (js ''xlink:href'' @ js ''="#a"/>'') = None
   \<and> m_directive (Some (ch CHR ''e'')) (ch CHR '' '' # js ''xlink:href'' @ js ''="#a"/>'') = None
   \<and> \<not> isDirective (js ''xlink:href'')
   \<and> protect_callback (js ''xlink:href="#a"'') (js ''xlink:href'', Some (js ''#a''))
         (Some (ch CHR '' ''))
       = js ''xlink:href="#a"''
   \<and> protect_callback (js ''xlink:href="__JSX_BASE64__eA==__"'')
         (js ''xlink:href'', Some (js ''__JSX_BASE64__eA==__'')) (Some (ch CHR '' ''))
       = js ''data-better-svg-temp-'' @ safeAttr (js ''xlink:href'') @ js ''='' @ [DQUOTE]
           @ js ''__JSX_BASE64__eA==__'' @ [DQUOTE]
   \<and> safeAttr (js ''xlink:href'') = js ''xlink__COLON__href''\<close>
proof -
  have n: "isNamespaced (js ''xlink:href'')"
    by (simp only: eval_rules cong: eval_congs)
  have w: "isSpace (ch CHR '' '')"
    by (simp only: eval_rules cong: eval_congs)
  have e: "\<not> isEncoded (Some (js ''#a''))"
    by (simp only: eval_rules isEncoded_def cong: eval_congs)
  have p: "\<not> notAfterSeparator (Some (ch CHR '' ''))"
    by (simp only: eval_rules cong: eval_congs)
  have enc: "isEncoded (Some (js ''__JSX_BASE64__eA==__''))"
    by (simp only: eval_rules isEncoded_def cong: eval_congs)
  have safe: "safeAttr (js ''xlink:href'') = js ''xlink__COLON__href''"
    by (simp only: eval_rules cong: eval_congs)
  note a = C4_namespaced_names_are_not_directives
             [of "js ''xlink:href''" None \<open>js ''="#a"/>''\<close> "ch CHR '' ''" "Some (ch CHR '' '')"
                "Some (js ''#a'')" \<open>js ''xlink:href="#a"''\<close> "js ''__JSX_BASE64__eA==__''" "[]"]
  note b = C4_namespaced_names_are_not_directives
             [of "js ''xlink:href''" "Some (ch CHR ''e'')" \<open>js ''="#a"/>''\<close> "ch CHR '' ''"
                "Some (ch CHR '' '')" "Some (js ''#a'')"
                \<open>js ''xlink:href="__JSX_BASE64__eA==__"''\<close> "js ''__JSX_BASE64__eA==__''" "[]"]
  from a b n w e p enc safe show ?thesis by blast
qed

text \<open>
  C4 (as the specification words it) fails.  With \<open>useCamelCase: true\<close> the reverse pass
  rewrites \<open>xlink:href=\<close> to \<open>xlinkHref=\<close>, the last entry of the spelling map; and the
  protector renames \<open>xlink:href\<close> when its value holds a placeholder.
\<close>

theorem C4_xlink_href_is_rewritten:
  \<open>convertSvgToJsx
     (js ''<svg xmlns:xlink="x" xml:space="preserve" data-better-svg-temp-width="__JSX_BASE64__MjQ=__"><use xlink:href="#a"/></svg>'')
     \<lparr>useCamelCase = Some True\<rparr>
   = js ''<svg xmlns:xlink="x" xml:space="preserve" width={24}><use xlinkHref="#a"/></svg>''
   \<and> protectEncodedAttributes (js ''<use xlink:href="__JSX_BASE64__eA==__"/>'')
     = js ''<use data-better-svg-temp-xlink__COLON__href="__JSX_BASE64__eA==__"/>''\<close>
  by (rule conjI [OF reverse_namespaced_on protect_encoded_namespaced])

section \<open>Comments are removed first\<close>

lemma stripPrefix_Some_append: "stripPrefix p s = Some r \<Longrightarrow> s = p @ r"
  by (induction p s rule: stripPrefix.induct) (auto split: if_splits)

lemma block_comment_removed:
  assumes "splitAtFirst (js ''{/*'') s = Some (pre, r)"
    and "splitAtFirst (js ''*/}'') r = Some (body, post)"
  shows "regex_replace m_block_comment removed_text prev s
         = pre @ regex_replace m_block_comment removed_text (Some (ch CHR ''}'')) post"
  using assms
proof (induction s arbitrary: pre prev)
  case Nil
  then show ?case by (simp add: js_def)
next
  case (Cons c cs)
  show ?case
  proof (cases "stripPrefix (js ''{/*'') (c # cs)")
    case None
    with Cons.prems(1) obtain pre' where sp: "splitAtFirst (js ''{/*'') cs = Some (pre', r)"
      and pre: "pre = c # pre'"
      by auto
    from None have "m_block_comment prev (c # cs) = None" by (simp add: m_block_comment_def)
    with Cons.IH [OF sp Cons.prems(2)] pre show ?thesis by simp
  next
    case (Some r')
    with Cons.prems(1) have pre: "pre = []" and r: "r' = r" by auto
    from Some r have s: "c # cs = js ''{/*'' @ r" by (auto dest: stripPrefix_Some_append)
    from splitAtFirst_append [OF Cons.prems(2)] have "r = body @ js ''*/}'' @ post" .
    with s have len: "length post < length (c # cs)" by (simp add: js_def)
    have m: "m_block_comment prev (c # cs) = Some (js ''{/*'' @ body @ js ''*/}'', post, ())"
      using Some r Cons.prems(2) by (simp add: m_block_comment_def)
    have l: "last (js ''{/*'' @ body @ js ''*/}'') = ch CHR ''}''" by (simp add: js_def)
    show ?thesis
      using len by (simp add: m l pre shorter_length removed_text_def del: append.simps)
  qed
qed



lemma line_comment_removed:
  assumes "lineStart prev" "list_all isSpace indent" "list_all notLineTerminator line"
    and "isLineTerminator t"
  shows "regex_replace m_line_comment removed_text prev (indent @ js ''//'' @ line @ t # following)
         = t # regex_replace m_line_comment removed_text (Some t) following"
proof -
  let ?s = "indent @ js ''//'' @ line @ t # following"
  have slash: "\<not> isSpace (ch CHR ''/'')"
    by (simp add: isSpace_def isLineTerminator_def ch_def)
  have nl: "\<not> isLineTerminator (ch CHR ''/'')"
    by (simp add: isLineTerminator_def ch_def)
  have dw: "dropWhile isSpace ?s = js ''//'' @ line @ t # following"
    using assms(2) slash by (induction indent) (auto simp: js_def)
  have tw: "takeWhile isSpace ?s = indent"
    using assms(2) slash by (induction indent) (auto simp: js_def)
  have sp: "stripPrefix (js ''//'') (js ''//'' @ line @ t # following) = Some (line @ t # following)"
    by (simp add: js_def)
  have tt: "takeWhile notLineTerminator (line @ t # following) = line"
    using assms(3,4) by (induction line) (auto simp: notLineTerminator_def)
  have dt: "dropWhile notLineTerminator (line @ t # following) = t # following"
    using assms(3,4) by (induction line) (auto simp: notLineTerminator_def)
  have m: "m_line_comment prev ?s = Some (indent @ js ''//'' @ line, t # following, ())"
    using assms(1) by (simp add: m_line_comment_def dw tw sp tt dt del: append.simps)
  have l: "\<not> isLineTerminator (last (indent @ js ''//'' @ line))"
    using assms(3) nl by (induction line rule: rev_induct) (auto simp: js_def notLineTerminator_def)
  have after: "m_line_comment (Some (last (indent @ js ''//'' @ line))) (t # following) = None"
    using l by (simp add: m_line_comment_def lineStart_def)
  obtain c cs where s: "?s = c # cs" by (cases ?s) (auto simp: js_def)
  have len: "length (t # following) < length ?s" by (simp add: js_def)
  show ?thesis
    using m len after unfolding s
    by (simp add: shorter_length removed_text_def)
qed


lemma splitAtFirst_None_tail: "splitAtFirst p (c # cs) = None \<Longrightarrow> splitAtFirst p cs = None"
  by (auto split: option.splits)

lemma no_comment_end:
  "splitAtFirst (js ''*/}'') s = None
   \<Longrightarrow> regex_replace m_block_comment removed_text prev s = s"
proof (induction s arbitrary: prev)
  case Nil
  then show ?case by (simp add: m_block_comment_def js_def)
next
  case (Cons c cs)
  have tl: "splitAtFirst (js ''*/}'') cs = None"
    by (rule splitAtFirst_None_tail [OF Cons.prems])
  have "m_block_comment prev (c # cs) = None"
  proof (cases "stripPrefix (js ''{/*'') (c # cs)")
    case None
    then show ?thesis by (simp add: m_block_comment_def)
  next
    case (Some r)
    then have "c # cs = js ''{/*'' @ r" by (rule stripPrefix_Some_append)
    then obtain c2 c3 where "cs = c2 # c3 # r" by (auto simp: js_def)
    with tl have "splitAtFirst (js ''*/}'') (c2 # c3 # r) = None" by simp
    then have "splitAtFirst (js ''*/}'') (c3 # r) = None" by (rule splitAtFirst_None_tail)
    then have "splitAtFirst (js ''*/}'') r = None" by (rule splitAtFirst_None_tail)
    with Some show ?thesis by (simp add: m_block_comment_def)
  qed
  with Cons.IH [OF tl] show ?case by simp
qed

lemma no_block_comment:
  assumes "splitAtFirst (js ''{/*'') s = None"
  shows "regex_replace m_block_comment removed_text prev s = s"
  using assms
proof (induction s arbitrary: prev)
  case Nil
  then show ?case by (simp add: m_block_comment_def js_def)
next
  case (Cons c cs)
  from Cons.prems have sp: "stripPrefix (js ''{/*'') (c # cs) = None"
    and tl: "splitAtFirst (js ''{/*'') cs = None"
    by (auto split: option.splits)
  from sp have "m_block_comment prev (c # cs) = None" by (simp add: m_block_comment_def)
  with Cons.IH [OF tl] show ?case by simp
qed

lemma unclosed_block_comment:
  assumes "splitAtFirst (js ''{/*'') s = Some (pre, r)"
    and "splitAtFirst (js ''*/}'') r = None"
  shows "regex_replace m_block_comment removed_text prev s = s"
  using assms
proof (induction s arbitrary: pre prev)
  case Nil
  then show ?case by (simp add: js_def)
next
  case (Cons c cs)
  show ?case
  proof (cases "stripPrefix (js ''{/*'') (c # cs)")
    case None
    with Cons.prems(1) obtain pre' where sp: "splitAtFirst (js ''{/*'') cs = Some (pre', r)"
      by auto
    from None have "m_block_comment prev (c # cs) = None" by (simp add: m_block_comment_def)
    with Cons.IH [OF sp Cons.prems(2)] show ?thesis by simp
  next
    case (Some r')
    with Cons.prems(1) have r: "r' = r" by auto
    from Some r have s: "c # cs = js ''{/*'' @ r" by (auto dest: stripPrefix_Some_append)
    then have cs: "cs = ch CHR ''/'' # ch CHR ''*'' # r" by (simp add: js_def ch_def)
    have m0: "m_block_comment prev (c # cs) = None"
      using Some r Cons.prems(2) by (simp add: m_block_comment_def)
    have m1: "m_block_comment p (ch CHR ''/'' # t) = None" for p t
      by (simp add: m_block_comment_def js_def ch_def)
    have m2: "m_block_comment p (ch CHR ''*'' # t) = None" for p t
      by (simp add: m_block_comment_def js_def ch_def)
    show ?thesis
      using m0 by (simp add: cs m1 m2 no_comment_end [OF Cons.prems(2)])
  qed
qed

lemma line_comment_removed_at_end:
  assumes "lineStart prev" "list_all isSpace indent" "list_all notLineTerminator line"
  shows "regex_replace m_line_comment removed_text prev (indent @ js ''//'' @ line) = []"
proof -
  let ?s = "indent @ js ''//'' @ line"
  have slash: "\<not> isSpace (ch CHR ''/'')"
    by (simp add: isSpace_def isLineTerminator_def ch_def)
  have dw: "dropWhile isSpace ?s = js ''//'' @ line"
    using assms(2) slash by (induction indent) (auto simp: js_def)
  have tw: "takeWhile isSpace ?s = indent"
    using assms(2) slash by (induction indent) (auto simp: js_def)
  have sp: "stripPrefix (js ''//'') (js ''//'' @ line) = Some line"
    by (simp add: js_def)
  have tt: "takeWhile notLineTerminator line = line"
    using assms(3) by (induction line) auto
  have dt: "dropWhile notLineTerminator line = []"
    using assms(3) by (induction line) auto
  have m: "m_line_comment prev ?s = Some (indent @ js ''//'' @ line, [], ())"
    using assms(1) by (simp add: m_line_comment_def dw tw sp tt dt del: append.simps)
  have e: "m_line_comment (Some p) [] = None" for p
    by (simp add: m_line_comment_def js_def)
  obtain c cs where s: "?s = c # cs" by (cases ?s) (auto simp: js_def)
  show ?thesis
    using m e unfolding s by (simp add: removed_text_def)
qed

lemma forward_reads_stripped:
  assumes "removeJsxComments f = removeJsxComments g"
  shows "convertJsxToSvg f options = convertJsxToSvg g options"
  by (simp add: convertJsxToSvg_def assms)

lemma detect_commented:
  \<open>isJsxSvg (js ''<svg>\<newline>  // icon\<newline>  {/* note */}<path strokeWidth={2} />\<newline></svg>'')\<close>
  by (simp only: eval_rules cong: eval_congs)

lemma strip_commented:
  \<open>removeJsxComments
     (js ''<svg>\<newline>  // icon\<newline>  {/* note */}<path strokeWidth={2} />\<newline></svg>'')
   = js ''<svg>\<newline>\<newline>  <path strokeWidth={2} />\<newline></svg>''\<close>
  by (simp only: eval_rules cong: eval_congs)

lemma forward_commented:
  \<open>convertJsxToSvg
     (js ''<svg>\<newline>  // icon\<newline>  {/* note */}<path strokeWidth={2} />\<newline></svg>'')
     default_options
   = js ''<svg>\<newline>\<newline>  <path data-better-svg-temp-stroke-width="__JSX_BASE64__Mg==__" />\<newline></svg>''\<close>
  by (simp only: eval_rules cong: eval_congs)

lemma reverse_commented:
  \<open>convertSvgToJsx
     (js ''<svg>\<newline>\<newline>  <path data-better-svg-temp-stroke-width="__JSX_BASE64__Mg==__" />\<newline></svg>'')
     default_options
   = js ''<svg>\<newline>\<newline>  <path strokeWidth={2} />\<newline></svg>''\<close>
  by (simp only: eval_rules cong: eval_congs)

lemma commented_result_clean:
  \<open>\<not> includes_str (js ''<svg>\<newline>\<newline>  <path strokeWidth={2} />\<newline></svg>'') (js ''note'')\<close>
  \<open>\<not> includes_str (js ''<svg>\<newline>\<newline>  <path strokeWidth={2} />\<newline></svg>'') (js ''icon'')\<close>
  by (simp_all only: eval_rules cong: eval_congs)

lemma detect_nested: "isJsxSvg (js ''<svg>{/{/* a */}* a */}</svg>'')"
  by (simp only: eval_rules cong: eval_congs)

lemma forward_nested:
  "convertJsxToSvg (js ''<svg>{/{/* a */}* a */}</svg>'') default_options
   = js ''<svg>{/* a */}</svg>''"
  by (simp only: eval_rules cong: eval_congs)

lemma reverse_nested:
  "convertSvgToJsx (js ''<svg>{/* a */}</svg>'') default_options = js ''<svg>{/* a */}</svg>''"
  by (simp only: eval_rules cong: eval_congs)

lemma nested_result_commented:
  "includes_str (js ''<svg>{/* a */}</svg>'') (js ''{/* a */}'')"
  by (simp only: eval_rules cong: eval_congs)


text \<open>
  C10 (as the code has it).  \<open>removeJsxComments\<close> is the first step of the forward pass:
  one pass that deletes block comments, then one pass that deletes line comments.  The
  later steps read its result only, so \<open>convertJsxToSvg\<close> gives the same for two
  fragments with the same result.

  The block pass, for every content \<open>f\<close>: if \<open>{/*\<close> does not occur in \<open>f\<close>, or if no
  \<open>*/}\<close> follows its first occurrence, \<open>f\<close> is returned as it is; otherwise the text from
  the first \<open>{/*\<close> to the nearest \<open>*/}\<close> after it is deleted, the text before it is kept,
  and the pass goes on with the text after it.

  The line pass: at the start of the input or of a line, white space followed by \<open>//\<close>
  and the rest of the line is deleted, up to the line terminator (which is kept) or the
  end of the input.

  One fragment, evaluated (with the default options): a fragment with a line comment
  \<open>// icon\<close> and a block comment \<open>{/* note */}\<close> is classified as JSX, and the round trip
  returns it without the two comments; neither \<open>note\<close> nor \<open>icon\<close> occurs in the result.
\<close>

theorem C10_comments_are_removed_first:
  \<open>removeJsxComments f
     = regex_replace m_line_comment removed_text None
         (regex_replace m_block_comment removed_text None f)
   \<and> (removeJsxComments f = removeJsxComments g \<longrightarrow>
        convertJsxToSvg f options = convertJsxToSvg g options)
   \<and> (splitAtFirst (js ''{/*'') f = None \<longrightarrow>
        regex_replace m_block_comment removed_text prev f = f)
   \<and> (splitAtFirst (js ''{/*'') f = Some (pre, r) \<longrightarrow>
        splitAtFirst (js ''*/}'') r = None \<longrightarrow>
        regex_replace m_block_comment removed_text prev f = f)
   \<and> (splitAtFirst (js ''{/*'') f = Some (pre, r) \<longrightarrow>
        splitAtFirst (js ''*/}'') r = Some (body, post) \<longrightarrow>
        regex_replace m_block_comment removed_text prev f
        = pre @ regex_replace m_block_comment removed_text (Some (ch CHR ''}'')) post)
   \<and> (lineStart prev \<longrightarrow> list_all isSpace indent \<longrightarrow>
        list_all notLineTerminator line \<longrightarrow> isLineTerminator t \<longrightarrow>
        regex_replace m_line_comment removed_text prev (indent @ js ''//'' @ line @ t # following)
        = t # regex_replace m_line_comment removed_text (Some t) following)
   \<and> (lineStart prev \<longrightarrow> list_all isSpace indent \<longrightarrow>
        list_all notLineTerminator line \<longrightarrow>
        regex_replace m_line_comment removed_text prev (indent @ js ''//'' @ line) = [])
   \<and> isJsxSvg
       (js ''<svg>\<newline>  // icon\<newline>  {/* note */}<path strokeWidth={2} />\<newline></svg>'')
   \<and> removeJsxComments
       (js ''<svg>\<newline>  // icon\<newline>  {/* note */}<path strokeWidth={2} />\<newline></svg>'')
     = js ''<svg>\<newline>\<newline>  <path strokeWidth={2} />\<newline></svg>''
   \<and> finalizeAfterOptimization
       (preparedSvg
         (prepareForOptimization
           (js ''<svg>\<newline>  // icon\<newline>  {/* note */}<path strokeWidth={2} />\<newline></svg>'')
           default_options))
       True default_options
     = js ''<svg>\<newline>\<newline>  <path strokeWidth={2} />\<newline></svg>''
   \<and> \<not> includes_str (js ''<svg>\<newline>\<newline>  <path strokeWidth={2} />\<newline></svg>'')
         (js ''note'')
   \<and> \<not> includes_str (js ''<svg>\<newline>\<newline>  <path strokeWidth={2} />\<newline></svg>'')
         (js ''icon'')\<close>
proof -
  have rt: \<open>finalizeAfterOptimization
       (preparedSvg
         (prepareForOptimization
           (js ''<svg>\<newline>  // icon\<newline>  {/* note */}<path strokeWidth={2} />\<newline></svg>'')
           default_options))
       True default_options
     = js ''<svg>\<newline>\<newline>  <path strokeWidth={2} />\<newline></svg>''\<close>
    by (simp only: prepareForOptimization_def finalizeAfterOptimization_def detect_commented
          forward_commented reverse_commented if_True Prepared.select_convs)
  show ?thesis
    using forward_reads_stripped [of f g options] no_block_comment [of f prev]
      unclosed_block_comment [of f pre r prev] block_comment_removed [of f pre r body post prev]
      line_comment_removed [of prev indent line t following]
      line_comment_removed_at_end [of prev indent line]
    by (intro conjI impI removeJsxComments_def detect_commented strip_commented rt
          commented_result_clean) blast+
qed

theorem C10_comments_witness:
  \<open>removeJsxComments (js ''a{/* b */}c'') = removeJsxComments (js ''ac'')
   \<and> convertJsxToSvg (js ''a{/* b */}c'') default_options = convertJsxToSvg (js ''ac'') default_options
   \<and> splitAtFirst (js ''{/*'') (js ''ac'') = None
   \<and> regex_replace m_block_comment removed_text None (js ''ac'') = js ''ac''
   \<and> splitAtFirst (js ''{/*'') (js ''a{/* b'') = Some (js ''a'', js '' b'')
   \<and> splitAtFirst (js ''*/}'') (js '' b'') = None
   \<and> regex_replace m_block_comment removed_text None (js ''a{/* b'') = js ''a{/* b''
   \<and> splitAtFirst (js ''{/*'') (js ''a{/* b */}c'') = Some (js ''a'', js '' b */}c'')
   \<and> splitAtFirst (js ''*/}'') (js '' b */}c'') = Some (js '' b '', js ''c'')
   \<and> regex_replace m_block_comment removed_text None (js ''a{/* b */}c'')
       = js ''a'' @ regex_replace m_block_comment removed_text (Some (ch CHR ''}'')) (js ''c'')
   \<and> lineStart None
   \<and> list_all isSpace (js ''  '')
   \<and> list_all notLineTerminator (js '' x'')
   \<and> isLineTerminator 0x0A
   \<and> regex_replace m_line_comment removed_text None
         (js ''  '' @ js ''//'' @ js '' x'' @ 0x0A # js ''y'')
       = 0x0A # regex_replace m_line_comment removed_text (Some 0x0A) (js ''y'')
   \<and> regex_replace m_line_comment removed_text None (js ''  '' @ js ''//'' @ js '' x'') = []\<close>
proof -
  have h1: "removeJsxComments (js ''a{/* b */}c'') = removeJsxComments (js ''ac'')"
    by (simp only: eval_rules cong: eval_congs)
  have h2: "splitAtFirst (js ''{/*'') (js ''ac'') = None"
    by (simp only: eval_rules cong: eval_congs)
  have h3: "splitAtFirst (js ''{/*'') (js ''a{/* b'') = Some (js ''a'', js '' b'')"
    "splitAtFirst (js ''*/}'') (js '' b'') = None"
    by (simp_all only: eval_rules cong: eval_congs)
  have h4: "splitAtFirst (js ''{/*'') (js ''a{/* b */}c'') = Some (js ''a'', js '' b */}c'')"
    "splitAtFirst (js ''*/}'') (js '' b */}c'') = Some (js '' b '', js ''c'')"
    by (simp_all only: eval_rules cong: eval_congs)
  have h5: "lineStart None" "list_all isSpace (js ''  '')" "list_all notLineTerminator (js '' x'')"
    "isLineTerminator 0x0A"
    by (simp_all only: eval_rules list.pred_inject cong: eval_congs)
  note a = C10_comments_are_removed_first
             [where f = "js ''a{/* b */}c''" and g = "js ''ac''" and options = default_options
                and pre = "js ''a''" and r = "js '' b */}c''" and body = "js '' b ''"
                and post = "js ''c''" and prev = None and indent = "js ''  ''"
                and line = "js '' x''" and t = "0x0A" and following = "js ''y''"]
  note b = C10_comments_are_removed_first
             [where f = "js ''ac''" and g = "js ''ac''" and options = default_options
                and pre = "js ''a''" and r = "js '' b''" and body = "js '' b ''"
                and post = "js ''c''" and prev = None and indent = "js ''  ''"
                and line = "js '' x''" and t = "0x0A" and following = "js ''y''"]
  note c = C10_comments_are_removed_first
             [where f = "js ''a{/* b''" and g = "js ''ac''" and options = default_options
                and pre = "js ''a''" and r = "js '' b''" and body = "js '' b ''"
                and post = "js ''c''" and prev = None and indent = "js ''  ''"
                and line = "js '' x''" and t = "0x0A" and following = "js ''y''"]
  from a b c h1 h2 h3 h4 h5 show ?thesis by blast
qed

text \<open>
  C10 (as the specification words it) fails.  In \<open><svg>{/{/* a */}* a */}</svg>\<close> the one
  pass deletes the inner \<open>{/* a */}\<close>; what is left around it is \<open>{/* a */}\<close> again, which
  stays: the round trip returns \<open><svg>{/* a */}</svg>\<close>.
\<close>

theorem C10_comment_left_by_the_single_pass:
  "isJsxSvg (js ''<svg>{/{/* a */}* a */}</svg>'')
   \<and> finalizeAfterOptimization
       (preparedSvg (prepareForOptimization (js ''<svg>{/{/* a */}* a */}</svg>'') default_options))
       True default_options
     = js ''<svg>{/* a */}</svg>''
   \<and> includes_str (js ''<svg>{/* a */}</svg>'') (js ''{/* a */}'')"
  by (simp only: prepareForOptimization_def finalizeAfterOptimization_def detect_nested
        forward_nested reverse_nested nested_result_commented if_True Prepared.select_convs
        simp_thms)

section \<open>Round trips of an attribute expression\<close>















subsection \<open>What the passes do on a run of alphanumeric characters\<close>


lemma pad_not:
  "((0x3D :: jschar) = 0x7B) = False" "((0x3D :: jschar) = 0x22) = False"
  "((0x3D :: jschar) = 0x5F) = False" "((0x3D :: jschar) = 0x3E) = False"
  by simp_all










subsection \<open>What the passes do on the base64 text\<close>













subsection \<open>The stages on a fragment with one alphanumeric expression\<close>


























end
